theory Spec2Isabelle
  imports Main
begin

section \<open>Strings and request parameters\<close>

text \<open>
  A string is a list of characters. The character type is the 8-bit \<open>char\<close>: the model
  covers code units 0 to 255, which is enough for the ASCII letters, digits, padding and
  pattern characters the routes and the repair script inspect.
\<close>

definition chr_pct :: char where "chr_pct = CHR ''%''"
definition chr_us :: char where "chr_us = CHR ''_''"
definition chr_bs :: char where "chr_bs = CHR 0x5C"
definition chr_dash :: char where "chr_dash = CHR ''-''"
definition chr_sp :: char where "chr_sp = CHR '' ''"
definition chr_dot :: char where "chr_dot = CHR ''.''"
definition chr_nul :: char where "chr_nul = CHR 0x00"

text \<open>
  The characters \<open>String.prototype.trim\<close> and \<open>parseInt\<close> treat as white space, within the
  8-bit range: TAB, LF, VT, FF, CR, space and the no-break space.
\<close>

definition is_ws :: "char \<Rightarrow> bool" where
  "is_ws c = (of_char c \<in> {9::nat, 10, 11, 12, 13, 32, 160})"

definition trim :: "string \<Rightarrow> string" where
  "trim s = rev (dropWhile is_ws (rev (dropWhile is_ws s)))"

definition is_digit :: "char \<Rightarrow> bool" where
  "is_digit c = (48 \<le> (of_char c :: nat) \<and> (of_char c :: nat) \<le> 57)"

definition is_upper :: "char \<Rightarrow> bool" where
  "is_upper c = (65 \<le> (of_char c :: nat) \<and> (of_char c :: nat) \<le> 90)"

definition digit_val :: "char \<Rightarrow> int" where
  "digit_val c = int (of_char c) - 48"

text \<open>
  A value of \<open>req.query\<close> as the query-string parser of the web framework delivers it: a
  string, or an array or object (for \<open>?q=a&q=b\<close> or \<open>?q[k]=v\<close>). A non-string value carries
  the string JavaScript's \<open>ToString\<close> gives for it; it is always truthy and has no
  \<open>trim\<close> method. An absent parameter is \<open>None\<close>.
\<close>

datatype qvalue = QStr string | QOther string

fun to_string :: "qvalue \<Rightarrow> string" where
  "to_string (QStr s) = s"
| "to_string (QOther s) = s"

text \<open>\<open>v || d\<close> for a query value \<open>v\<close> and a string literal \<open>d\<close>: the empty string and
  \<open>undefined\<close> are falsy.\<close>

fun or_default :: "qvalue option \<Rightarrow> string \<Rightarrow> qvalue" where
  "or_default None d = QStr d"
| "or_default (Some (QStr s)) d = (if s = [] then QStr d else QStr s)"
| "or_default (Some (QOther s)) d = QOther s"

text \<open>
  \<open>parseInt(v, 10)\<close>: convert to a string, skip leading white space, read an optional
  sign, then the longest run of decimal digits; \<open>NaN\<close> (here \<open>None\<close>) when that run is
  empty. The number is kept exact; JavaScript rounds it to a double beyond \<open>2^53\<close>, which
  changes neither its sign nor its comparison with 1000.
\<close>

definition digits_val :: "string \<Rightarrow> int" where
  "digits_val ds = foldl (\<lambda>acc c. 10 * acc + digit_val c) 0 ds"

definition parse_digits :: "string \<Rightarrow> int option" where
  "parse_digits s =
     (let ds = takeWhile is_digit s in if ds = [] then None else Some (digits_val ds))"

definition parseInt :: "qvalue \<Rightarrow> int option" where
  "parseInt v =
     (case dropWhile is_ws (to_string v) of
        [] \<Rightarrow> None
      | c # cs \<Rightarrow>
          if c = CHR ''-'' then map_option uminus (parse_digits cs)
          else if c = CHR ''+'' then parse_digits cs
          else parse_digits (c # cs))"

text \<open>\<open>Math.min(x, 1000)\<close> and \<open>Math.max(x, 0)\<close>: \<open>NaN\<close> in, \<open>NaN\<close> out.\<close>

definition Math_min :: "int option \<Rightarrow> int \<Rightarrow> int option" where
  "Math_min x b = map_option (\<lambda>n. min n b) x"

definition Math_max :: "int option \<Rightarrow> int \<Rightarrow> int option" where
  "Math_max x b = map_option (\<lambda>n. max n b) x"

text \<open>The fields of \<open>req.query\<close> the routes read: \<open>q\<close>, \<open>limit\<close>, \<open>offset\<close>, \<open>sort\<close>.\<close>

record request =
  query_q :: "qvalue option"
  query_limit :: "qvalue option"
  query_offset :: "qvalue option"
  query_sort :: "qvalue option"

text \<open>The effective limit and offset, as both servers compute them.\<close>

definition limit_of :: "request \<Rightarrow> int option" where
  "limit_of req = Math_min (parseInt (or_default (query_limit req) ''100'')) 1000"

definition offset_of :: "request \<Rightarrow> int option" where
  "offset_of req = Math_max (parseInt (or_default (query_offset req) ''0'')) 0"

text \<open>\<open>(req.query.sort === 'Title') ? 'Title' : 'Code'\<close>; strict equality holds for the
  string \<open>Title\<close> only.\<close>

definition sortColumn :: "request \<Rightarrow> string" where
  "sortColumn req = (if query_sort req = Some (QStr ''Title'') then ''Title'' else ''Code'')"

section \<open>The ICHI table and the queries the routes send\<close>

text \<open>
  One row of the table \<open>ICHI\<close>, with the values it stores: \<open>id'\<close> is the column the repair
  script calls \<open>id\<close>, \<open>Code\<close> and \<open>Title\<close> the columns it calls \<open>code\<close> and \<open>title\<close> (inside a
  statement column names are case-insensitive). The depth is stored as an integer.
\<close>

record ichi_row =
  id' :: nat
  Code :: string
  BlockId :: string
  Title :: string
  ClassKind :: string
  DepthInKind :: int

type_synonym store = "ichi_row list"

text \<open>
  The statement that creates the table is not part of the repository. The code depends on
  these points of it, which are therefore parameters:
  \<^item> the names under which the columns \<open>id\<close>, \<open>code\<close> and \<open>title\<close> are declared: a result row is
    an object keyed by the declared names, so \<open>row.code\<close> is \<open>undefined\<close> on a table that
    declares the column as \<open>Code\<close>; \<open>id_name\<close> is \<open>None\<close> when the table has no such column;
  \<^item> whether the column \<open>code\<close> carries a uniqueness constraint;
  \<^item> whether the column \<open>DepthInKind\<close> is declared with a type. With a type, the text
    \<open>'1'\<close> of the search statement is compared as the number 1; without one, the stored
    integer 1 and the text \<open>'1'\<close> are different values.
\<close>

record schema =
  id_name :: "string option"
  code_name :: string
  title_name :: string
  code_unique :: bool
  depth_typed :: bool

text \<open>Text comparison of \<open>ORDER BY\<close> under the default collation: byte by byte.\<close>

fun str_le :: "string \<Rightarrow> string \<Rightarrow> bool" where
  "str_le [] t = True"
| "str_le (a # s) [] = False"
| "str_le (a # s) (b # t) = (if a = b then str_le s t else (of_char a :: nat) < of_char b)"

text \<open>\<open>ORDER BY\<close> a text column, as a stable insertion sort of the stored order (the
  database leaves the order of rows with equal keys open).\<close>

fun insert_by :: "('a \<Rightarrow> string) \<Rightarrow> 'a \<Rightarrow> 'a list \<Rightarrow> 'a list" where
  "insert_by k x [] = [x]"
| "insert_by k x (y # ys) = (if str_le (k x) (k y) then x # y # ys else y # insert_by k x ys)"

definition order_by :: "('a \<Rightarrow> string) \<Rightarrow> 'a list \<Rightarrow> 'a list" where
  "order_by k xs = foldr (insert_by k) xs []"

text \<open>The column a name interpolated after \<open>ORDER BY\<close> denotes. Only the two names the
  list route can produce are modelled; any other text there is an error of the statement.\<close>

definition column_of :: "string \<Rightarrow> (ichi_row \<Rightarrow> string) option" where
  "column_of name =
     (if name = ''Code'' then Some Code else if name = ''Title'' then Some Title else None)"

text \<open>\<open>LIMIT n\<close>: a negative bound means no bound. \<open>OFFSET m\<close>: a negative offset skips
  nothing. The bound number is taken as the exact integer; this is what the database
  receives for numbers between \<open>-2^53\<close> and \<open>2^53\<close> (beyond, JavaScript has rounded the
  number, and beyond the 64-bit range the database refuses it).\<close>

definition sql_limit :: "int \<Rightarrow> 'a list \<Rightarrow> 'a list" where
  "sql_limit n xs = (if n < 0 then xs else take (nat n) xs)"

definition sql_offset :: "int \<Rightarrow> 'a list \<Rightarrow> 'a list" where
  "sql_offset m xs = (if m < 0 then xs else drop (nat m) xs)"

text \<open>
  The \<open>LIKE\<close> operator with \<open>ESCAPE '\\'\<close>: \<open>%\<close> matches any run of characters, \<open>_\<close> any one
  character, the escape character makes the character after it literal (and matches
  nothing when it ends the pattern); every other character matches itself, ASCII letters
  without regard to case. (The database refuses patterns longer than 50000 bytes; a
  request line is too short to carry one.) The operator reads the pattern and the text
  as C strings: each ends before its first NUL character.
\<close>

definition c_str :: "string \<Rightarrow> string" where
  "c_str s = takeWhile (\<lambda>c. c \<noteq> chr_nul) s"

text \<open>The lower-case form of an ASCII upper-case letter is the letter with bit 5 set (its
  code plus 32); every other character is left as it is.\<close>

definition lower :: "char \<Rightarrow> char" where
  "lower c =
     (if is_upper c then
        (case c of Char b0 b1 b2 b3 b4 b5 b6 b7 \<Rightarrow> Char b0 b1 b2 b3 b4 True b6 b7)
      else c)"

fun like_match :: "string \<Rightarrow> string \<Rightarrow> bool" where
  "like_match [] s = (s = [])"
| "like_match (p # ps) s =
     (if p = chr_pct then
        (like_match ps s \<or> (case s of [] \<Rightarrow> False | c # s' \<Rightarrow> like_match (p # ps) s'))
      else if p = chr_bs then
        (case ps of [] \<Rightarrow> False
         | e # ps' \<Rightarrow> (case s of [] \<Rightarrow> False | c # s' \<Rightarrow> lower e = lower c \<and> like_match ps' s'))
      else if p = chr_us then
        (case s of [] \<Rightarrow> False | c # s' \<Rightarrow> like_match ps s')
      else
        (case s of [] \<Rightarrow> False | c # s' \<Rightarrow> lower p = lower c \<and> like_match ps s'))"

definition sql_like :: "string \<Rightarrow> string \<Rightarrow> bool" where
  "sql_like pat s = like_match (c_str pat) (c_str s)"

text \<open>\<open>REPLACE(Title, '-', '')\<close> and \<open>LTRIM(x, ' ')\<close>.\<close>

definition REPLACE_dash :: "string \<Rightarrow> string" where
  "REPLACE_dash s = filter (\<lambda>c. c \<noteq> chr_dash) s"

definition LTRIM_sp :: "string \<Rightarrow> string" where
  "LTRIM_sp s = dropWhile (\<lambda>c. c = chr_sp) s"

datatype js_error = TypeError | SQLITE_MISMATCH | SQLITE_ERROR

text \<open>A bound parameter that is \<open>NaN\<close> reaches the statement as \<open>NULL\<close>, which \<open>LIMIT\<close> and
  \<open>OFFSET\<close> reject with a datatype mismatch; the statements below return that error then.\<close>

text \<open>The search statement of the refactored server (src/unnamed/part_000):
  \<open>SELECT LTRIM(REPLACE(Title, '-', ''), ' ') AS Title, Code FROM ICHI
   WHERE DepthInKind = '1' AND Title LIKE ? ESCAPE '\\' ORDER BY Code LIMIT ?\<close>.
  A result is the pair (Title, Code). \<open>depth_eq_1\<close> is the comparison
  \<open>DepthInKind = '1'\<close> on a row.\<close>

definition depth_eq_1 :: "schema \<Rightarrow> ichi_row \<Rightarrow> bool" where
  "depth_eq_1 sch r = (depth_typed sch \<and> DepthInKind r = 1)"

definition search_sql ::
  "schema \<Rightarrow> store \<Rightarrow> string \<Rightarrow> int option \<Rightarrow> js_error + (string \<times> string) list" where
  "search_sql sch db pat lim =
     (case lim of
        None \<Rightarrow> Inl SQLITE_MISMATCH
      | Some n \<Rightarrow>
          Inr (map (\<lambda>r. (LTRIM_sp (REPLACE_dash (Title r)), Code r))
                (sql_limit n
                  (order_by Code
                    (filter (\<lambda>r. depth_eq_1 sch r \<and> sql_like pat (Title r)) db)))))"

text \<open>The search statement of src/server.js:
  \<open>SELECT Code, Title FROM ICHI WHERE Title LIKE ? ESCAPE '\\' ORDER BY Code LIMIT ?\<close>.
  A result is the pair (Title, Code) as well.\<close>

definition search_sql_server_js :: "store \<Rightarrow> string \<Rightarrow> int option \<Rightarrow> js_error + (string \<times> string) list" where
  "search_sql_server_js db pat lim =
     (case lim of
        None \<Rightarrow> Inl SQLITE_MISMATCH
      | Some n \<Rightarrow>
          Inr (map (\<lambda>r. (Title r, Code r))
                (sql_limit n (order_by Code (filter (\<lambda>r. sql_like pat (Title r)) db)))))"

text \<open>The list statement: \<open>SELECT ... FROM ICHI ORDER BY <column> LIMIT ? OFFSET ?\<close>; the
  rows before the projection to the selected columns.\<close>

definition list_sql :: "store \<Rightarrow> string \<Rightarrow> int option \<Rightarrow> int option \<Rightarrow> js_error + ichi_row list" where
  "list_sql db col lim off =
     (case column_of col of
        None \<Rightarrow> Inl SQLITE_ERROR
      | Some k \<Rightarrow>
          (case (lim, off) of
             (Some n, Some m) \<Rightarrow> Inr (sql_limit n (sql_offset m (order_by k db)))
           | _ \<Rightarrow> Inl SQLITE_MISMATCH))"

section \<open>The routes\<close>

text \<open>The JSON bodies the routes send, and the statements they run against the store.\<close>

datatype body =
    ErrorBody string
  | ErrorDetails string js_error
  | SearchBody string nat "(string \<times> string) list"
  | ListBody nat "int option" "int option" "(string \<times> string \<times> string \<times> string \<times> int) list"
  | ListBody_server_js nat "int option" "int option" "(string \<times> string) list"

datatype sql_call =
    SearchCall string "int option"
  | ListCall string "int option" "int option"

record response =
  status :: nat
  json :: body
  calls :: "sql_call list"

text \<open>\<open>q.replace(/%/g, '\\%').replace(/_/g, '\\_')\<close> between two \<open>%\<close>.\<close>

definition replace_pct :: "string \<Rightarrow> string" where
  "replace_pct s = concat (map (\<lambda>c. if c = chr_pct then [chr_bs, chr_pct] else [c]) s)"

definition replace_us :: "string \<Rightarrow> string" where
  "replace_us s = concat (map (\<lambda>c. if c = chr_us then [chr_bs, chr_us] else [c]) s)"

definition term_of :: "string \<Rightarrow> string" where
  "term_of qs = [chr_pct] @ replace_us (replace_pct qs) @ [chr_pct]"

text \<open>\<open>(req.query.q || '').trim()\<close>: a non-string value has no \<open>trim\<close>, the call throws.\<close>

definition q_of :: "request \<Rightarrow> js_error + string" where
  "q_of req =
     (case query_q req of
        None \<Rightarrow> Inr (trim [])
      | Some (QStr s) \<Rightarrow> Inr (trim s)
      | Some (QOther s) \<Rightarrow> Inl TypeError)"

text \<open>\<open>GET /ichi/search\<close> of the refactored server (src/unnamed/part_000).\<close>

definition ichi_search :: "schema \<Rightarrow> store \<Rightarrow> request \<Rightarrow> response" where
  "ichi_search sch db req =
     (case q_of req of
        Inl e \<Rightarrow> \<lparr>status = 500, json = ErrorDetails ''Search failed'' e, calls = []\<rparr>
      | Inr qs \<Rightarrow>
          if qs = [] then
            \<lparr>status = 400, json = ErrorBody ''Missing query parameter q'', calls = []\<rparr>
          else
            (let pat = term_of qs; lim = limit_of req in
             case search_sql sch db pat lim of
               Inl e \<Rightarrow> \<lparr>status = 500, json = ErrorDetails ''Search failed'' e,
                          calls = [SearchCall pat lim]\<rparr>
             | Inr rows \<Rightarrow> \<lparr>status = 200, json = SearchBody qs (length rows) rows,
                             calls = [SearchCall pat lim]\<rparr>))"

text \<open>\<open>GET /ichi/search\<close> of src/server.js.\<close>

definition ichi_search_server_js :: "store \<Rightarrow> request \<Rightarrow> response" where
  "ichi_search_server_js db req =
     (case q_of req of
        Inl e \<Rightarrow> \<lparr>status = 500, json = ErrorDetails ''Search failed'' e, calls = []\<rparr>
      | Inr qs \<Rightarrow>
          if qs = [] then
            \<lparr>status = 400, json = ErrorBody ''Missing query parameter q'', calls = []\<rparr>
          else
            (let pat = term_of qs; lim = limit_of req in
             case search_sql_server_js db pat lim of
               Inl e \<Rightarrow> \<lparr>status = 500, json = ErrorDetails ''Search failed'' e,
                          calls = [SearchCall pat lim]\<rparr>
             | Inr rows \<Rightarrow> \<lparr>status = 200, json = SearchBody qs (length rows) rows,
                             calls = [SearchCall pat lim]\<rparr>))"

text \<open>\<open>GET /ichi\<close> of the refactored server: the columns Code, BlockId, Title, ClassKind,
  DepthInKind of each row.\<close>

definition ichi_list :: "store \<Rightarrow> request \<Rightarrow> response" where
  "ichi_list db req =
     (let lim = limit_of req; off = offset_of req; col = sortColumn req in
      case list_sql db col lim off of
        Inl e \<Rightarrow> \<lparr>status = 500, json = ErrorDetails ''Failed to query ICHI database'' e,
                   calls = [ListCall col lim off]\<rparr>
      | Inr rows \<Rightarrow>
          \<lparr>status = 200,
           json = ListBody (length rows) lim off
                    (map (\<lambda>r. (Code r, BlockId r, Title r, ClassKind r, DepthInKind r)) rows),
           calls = [ListCall col lim off]\<rparr>)"

text \<open>\<open>GET /ichi\<close> of src/server.js: the columns Code and Title.\<close>

definition ichi_list_server_js :: "store \<Rightarrow> request \<Rightarrow> response" where
  "ichi_list_server_js db req =
     (let lim = limit_of req; off = offset_of req; col = sortColumn req in
      case list_sql db col lim off of
        Inl e \<Rightarrow> \<lparr>status = 500, json = ErrorBody ''Failed to query AHCI database'',
                   calls = [ListCall col lim off]\<rparr>
      | Inr rows \<Rightarrow>
          \<lparr>status = 200,
           json = ListBody_server_js (length rows) lim off (map (\<lambda>r. (Code r, Title r)) rows),
           calls = [ListCall col lim off]\<rparr>)"

section \<open>The repair script\<close>

text \<open>\<open>s.startsWith(p)\<close> and \<open>s.includes(x)\<close>.\<close>

fun startsWith :: "string \<Rightarrow> string \<Rightarrow> bool" where
  "startsWith s [] = True"
| "startsWith [] (a # p) = False"
| "startsWith (b # s) (a # p) = (a = b \<and> startsWith s p)"

fun includes_str :: "string \<Rightarrow> string \<Rightarrow> bool" where
  "includes_str [] x = (x = [])"
| "includes_str (b # s) x = (startsWith (b # s) x \<or> includes_str s x)"

text \<open>
  The properties \<open>row.id\<close>, \<open>row.code\<close> and \<open>row.title\<close> of a row object of
  \<open>SELECT id, code, title FROM ICHI\<close>: the object is keyed by the declared column names,
  and a property under another name is \<open>undefined\<close> (here \<open>None\<close>).
\<close>

definition row_id :: "schema \<Rightarrow> ichi_row \<Rightarrow> nat option" where
  "row_id sch r = (if id_name sch = Some ''id'' then Some (id' r) else None)"

definition row_code :: "schema \<Rightarrow> ichi_row \<Rightarrow> string option" where
  "row_code sch r = (if code_name sch = ''code'' then Some (Code r) else None)"

definition row_title :: "schema \<Rightarrow> ichi_row \<Rightarrow> string option" where
  "row_title sch r = (if title_name sch = ''title'' then Some (Title r) else None)"

text \<open>The string JavaScript makes of a property where a string is expected.\<close>

definition js_string :: "string option \<Rightarrow> string" where
  "js_string v = (case v of None \<Rightarrow> ''undefined'' | Some s \<Rightarrow> s)"

text \<open>\<open>/^[A-Z]+\d*$/.test(code)\<close>: one or more upper-case letters, then digits only.\<close>

definition is_flat :: "string \<Rightarrow> bool" where
  "is_flat code =
     (takeWhile is_upper code \<noteq> [] \<and> list_all is_digit (dropWhile is_upper code))"

text \<open>\<open>code.split('.')\<close> and \<open>parts.join('.')\<close>.\<close>

fun split_dot :: "string \<Rightarrow> string list" where
  "split_dot [] = [[]]"
| "split_dot (c # cs) =
     (if c = chr_dot then [] # split_dot cs
      else (case split_dot cs of [] \<Rightarrow> [[c]] | x # xs \<Rightarrow> (c # x) # xs))"

fun join_dot :: "string list \<Rightarrow> string" where
  "join_dot [] = []"
| "join_dot [x] = x"
| "join_dot (x # y # ys) = x @ [chr_dot] @ join_dot (y # ys)"

text \<open>
  The callback of \<open>rows.find\<close>, for a row \<open>r\<close> tried as parent of \<open>row\<close>:
  \<open>r.title.includes(row.title) && r.code.startsWith(row.code) && r.code !== row.code\<close>.
  A method call on \<open>undefined\<close> throws; \<open>&&\<close> stops at the first false operand.
\<close>

definition is_parent_of :: "schema \<Rightarrow> ichi_row \<Rightarrow> ichi_row \<Rightarrow> js_error + bool" where
  "is_parent_of sch row r =
     (case row_title sch r of
        None \<Rightarrow> Inl TypeError
      | Some t \<Rightarrow>
          if \<not> includes_str t (js_string (row_title sch row)) then Inr False
          else
            (case row_code sch r of
               None \<Rightarrow> Inl TypeError
             | Some c \<Rightarrow>
                 Inr (startsWith c (js_string (row_code sch row)) \<and> Some c \<noteq> row_code sch row)))"

text \<open>\<open>Array.prototype.find\<close> with a callback that may throw.\<close>

fun js_find :: "('a \<Rightarrow> js_error + bool) \<Rightarrow> 'a list \<Rightarrow> js_error + 'a option" where
  "js_find P [] = Inr None"
| "js_find P (x # xs) =
     (case P x of
        Inl e \<Rightarrow> Inl e
      | Inr b \<Rightarrow> if b then Inr (Some x) else js_find P xs)"

definition find_parent :: "schema \<Rightarrow> store \<Rightarrow> ichi_row \<Rightarrow> js_error + ichi_row option" where
  "find_parent sch rows row = js_find (is_parent_of sch row) rows"

text \<open>\<open>parent.code.split('.').slice(0, 2).join('.')\<close>, on the string \<open>parent.code\<close>.\<close>

definition correctedCode :: "string \<Rightarrow> string" where
  "correctedCode code = join_dot (take 2 (split_dot code))"

text \<open>The body of \<open>rows.forEach\<close> for one row: the parameters \<open>[correctedCode, row.id]\<close> of the
  UPDATE it issues, if it issues one, or the exception it throws.\<close>

definition fix_row :: "schema \<Rightarrow> store \<Rightarrow> ichi_row \<Rightarrow> js_error + (string \<times> nat option) option" where
  "fix_row sch rows row =
     (if is_flat (js_string (row_code sch row)) then
        (case find_parent sch rows row of
           Inl e \<Rightarrow> Inl e
         | Inr None \<Rightarrow> Inr None
         | Inr (Some parent) \<Rightarrow>
             (case row_code sch parent of
                None \<Rightarrow> Inl TypeError
              | Some c \<Rightarrow> Inr (Some (correctedCode c, row_id sch row))))
      else Inr None)"

text \<open>\<open>rows.forEach\<close>: the updates issued, in order, and the exception that ended the loop, if
  one was thrown.\<close>

fun forEach :: "schema \<Rightarrow> store \<Rightarrow> store \<Rightarrow> (string \<times> nat option) list \<times> js_error option" where
  "forEach sch rows [] = ([], None)"
| "forEach sch rows (row # rest) =
     (case fix_row sch rows row of
        Inl e \<Rightarrow> ([], Some e)
      | Inr None \<Rightarrow> forEach sch rows rest
      | Inr (Some u) \<Rightarrow> (case forEach sch rows rest of (us, e) \<Rightarrow> (u # us, e)))"

text \<open>
  \<open>UPDATE ICHI SET code = ? WHERE id = ?\<close> on the table. An \<open>undefined\<close> id is left unbound,
  which is \<open>NULL\<close>, and \<open>id = NULL\<close> holds for no row. With the uniqueness constraint, an
  update that would leave two rows with one code fails and changes nothing (the script
  logs the error and goes on).
\<close>

definition set_code :: "string \<Rightarrow> nat \<Rightarrow> ichi_row \<Rightarrow> ichi_row" where
  "set_code c i r = (if id' r = i then r\<lparr>Code := c\<rparr> else r)"

definition db_run :: "schema \<Rightarrow> store \<Rightarrow> string \<times> nat option \<Rightarrow> store" where
  "db_run sch db u =
     (case snd u of
        None \<Rightarrow> db
      | Some i \<Rightarrow>
          (let db' = map (set_code (fst u) i) db
           in if code_unique sch \<and> \<not> distinct (map Code db') then db else db'))"

text \<open>
  \<open>fixCodes\<close>: the table after the run, and the error that ended it, if any. The rows are
  read once (the statement fails on a table without a column \<open>id\<close>, and the script
  returns); the parent search runs on that snapshot, and the updates issued are run on the
  table in the order of the scan.
\<close>

definition fixCodes :: "schema \<Rightarrow> store \<Rightarrow> store \<times> js_error option" where
  "fixCodes sch rows =
     (if id_name sch = None then (rows, Some SQLITE_ERROR)
      else (case forEach sch rows rows of (us, e) \<Rightarrow> (foldl (db_run sch) rows us, e)))"

section \<open>Notions of the specification\<close>

text \<open>A title with its structural padding removed: the leading run of dashes and spaces
  dropped.\<close>

definition strip_padding :: "string \<Rightarrow> string" where
  "strip_padding s = dropWhile (\<lambda>c. c = chr_dash \<or> c = chr_sp) s"

text \<open>Containment of a term in a title without regard to the case of ASCII letters.\<close>

fun startsWith_ci :: "string \<Rightarrow> string \<Rightarrow> bool" where
  "startsWith_ci s [] = True"
| "startsWith_ci [] (a # p) = False"
| "startsWith_ci (b # s) (a # p) = (lower a = lower b \<and> startsWith_ci s p)"

fun includes_ci :: "string \<Rightarrow> string \<Rightarrow> bool" where
  "includes_ci [] x = (x = [])"
| "includes_ci (b # s) x = (startsWith_ci (b # s) x \<or> includes_ci s x)"

text \<open>The two replacements of the search route as one pass over the term: what each
  character of the term becomes in the pattern.\<close>

definition esc :: "char \<Rightarrow> string" where
  "esc c =
     (if c = chr_pct then [chr_bs, chr_pct] else if c = chr_us then [chr_bs, chr_us] else [c])"

text \<open>The first two dot-segments of a code: the code up to its second dot, the whole code
  when it has fewer than two dots.\<close>

definition first_two_segments :: "string \<Rightarrow> string" where
  "first_two_segments s =
     (case dropWhile (\<lambda>c. c \<noteq> chr_dot) s of
        [] \<Rightarrow> s
      | d # t \<Rightarrow> takeWhile (\<lambda>c. c \<noteq> chr_dot) s @ [chr_dot] @ takeWhile (\<lambda>c. c \<noteq> chr_dot) t)"

text \<open>The three parent conditions of the specification, for an entry \<open>r\<close> as parent of the
  candidate \<open>row\<close>: title containment, code prefix, distinct code.\<close>

definition parent_cond :: "ichi_row \<Rightarrow> ichi_row \<Rightarrow> bool" where
  "parent_cond row r =
     (includes_str (Title r) (Title row) \<and> startsWith (Code r) (Code row) \<and> Code r \<noteq> Code row)"

text \<open>A table that declares the three columns under the names the script reads.\<close>

definition lower_names :: "schema \<Rightarrow> bool" where
  "lower_names sch =
     (id_name sch = Some ''id'' \<and> code_name sch = ''code'' \<and> title_name sch = ''title'')"

text \<open>The update for a row on such a table: for a flat code with a first row meeting the
  parent conditions, the corrected code of that row and the id.\<close>

definition plain_fix_row :: "store \<Rightarrow> ichi_row \<Rightarrow> (string \<times> nat option) option" where
  "plain_fix_row rows row =
     (if is_flat (Code row) then
        map_option (\<lambda>p. (correctedCode (Code p), Some (id' row))) (find (parent_cond row) rows)
      else None)"


section \<open>Example tables\<close>

text \<open>Three declarations of the table: with the names the script reads, the same with a
  uniqueness constraint on the code, and with the capitalised names of the servers'
  statements.\<close>

definition lower_schema :: schema where
  "lower_schema =
     \<lparr>id_name = Some ''id'', code_name = ''code'', title_name = ''title'', code_unique = False,
      depth_typed = True\<rparr>"

definition unique_schema :: schema where
  "unique_schema =
     \<lparr>id_name = Some ''id'', code_name = ''code'', title_name = ''title'', code_unique = True,
      depth_typed = True\<rparr>"

definition capital_schema :: schema where
  "capital_schema =
     \<lparr>id_name = Some ''id'', code_name = ''Code'', title_name = ''Title'', code_unique = False,
      depth_typed = True\<rparr>"

text \<open>The scenario of the specification: a flat entry and its properly coded parent.\<close>

definition scenario_candidate :: ichi_row where
  "scenario_candidate =
     \<lparr>id' = 1, Code = ''HFA'', BlockId = ''HFA'', Title = ''Drainage'', ClassKind = ''block'',
      DepthInKind = 2\<rparr>"

definition scenario_parent :: ichi_row where
  "scenario_parent =
     \<lparr>id' = 2, Code = ''HFA.BA.01'', BlockId = ''HFA'', Title = ''Drainage of abscess'',
      ClassKind = ''category'', DepthInKind = 3\<rparr>"

text \<open>Two rows that both meet the parent conditions for \<open>scenario_candidate\<close>, the one with
  the longer code and the one with the shorter code.\<close>

definition parent_long :: ichi_row where
  "parent_long =
     \<lparr>id' = 2, Code = ''HFA.CC.02'', BlockId = ''HFA'', Title = ''Drainage of cyst'',
      ClassKind = ''category'', DepthInKind = 3\<rparr>"

definition parent_short :: ichi_row where
  "parent_short =
     \<lparr>id' = 3, Code = ''HFA.B'', BlockId = ''HFA'', Title = ''Drainage of abscess'',
      ClassKind = ''category'', DepthInKind = 3\<rparr>"

text \<open>A second flat entry whose code extends the code of \<open>scenario_candidate\<close>.\<close>

definition flat_sibling :: ichi_row where
  "flat_sibling =
     \<lparr>id' = 2, Code = ''HFA1'', BlockId = ''HFA'', Title = ''Drainage of abscess'',
      ClassKind = ''category'', DepthInKind = 3\<rparr>"

text \<open>Another flat entry and its parent, in another block.\<close>

definition other_candidate :: ichi_row where
  "other_candidate =
     \<lparr>id' = 3, Code = ''KBO'', BlockId = ''KBO'', Title = ''Removal'', ClassKind = ''block'',
      DepthInKind = 2\<rparr>"

definition other_parent :: ichi_row where
  "other_parent =
     \<lparr>id' = 4, Code = ''KBO.JB.AE'', BlockId = ''KBO'', Title = ''Removal of appendix'',
      ClassKind = ''category'', DepthInKind = 1\<rparr>"

text \<open>A leaf entry with a padded, hyphenated title, a title with a backslash, and a
  request for a term.\<close>

definition hyphen_row :: ichi_row where
  "hyphen_row =
     \<lparr>id' = 5, Code = ''KBO.JB.AE'', BlockId = ''KBO'', Title = ''- - Non-invasive test'',
      ClassKind = ''category'', DepthInKind = 1\<rparr>"

definition backslash_row :: ichi_row where
  "backslash_row =
     \<lparr>id' = 6, Code = ''X'', BlockId = ''X'', Title = [CHR ''a'', CHR 0x5C, CHR ''b''],
      ClassKind = ''category'', DepthInKind = 1\<rparr>"

definition request_q :: "string \<Rightarrow> request" where
  "request_q s =
     \<lparr>query_q = Some (QStr s), query_limit = None, query_offset = None, query_sort = None\<rparr>"

section \<open>Strings, containment and the pattern of the search\<close>

lemmas parse_defs = parseInt_def parse_digits_def digits_val_def is_ws_def is_digit_def digit_val_def

lemmas chr_defs = chr_pct_def chr_us_def chr_bs_def chr_dash_def chr_sp_def chr_dot_def
  chr_nul_def

lemma replace_us_pct: "replace_us (replace_pct qs) = concat (map esc qs)"
  by (induction qs) (simp_all add: replace_us_def replace_pct_def esc_def chr_defs)

lemma like_pct_Nil: "like_match [chr_pct] s"
  by (induction s) simp_all

lemma like_pct_Cons:
  "like_match (chr_pct # ps) (c # s) = (like_match ps (c # s) \<or> like_match (chr_pct # ps) s)"
  by simp

lemma like_pct_empty: "like_match (chr_pct # ps) [] = like_match ps []"
  by simp

lemma like_esc_Nil: "c \<noteq> chr_bs \<Longrightarrow> like_match (esc c @ rest) [] = False"
  by (simp add: esc_def chr_defs)

lemma like_esc_Cons:
  "c \<noteq> chr_bs \<Longrightarrow> like_match (esc c @ rest) (d # s) = (lower c = lower d \<and> like_match rest s)"
  by (simp add: esc_def chr_defs)

lemma like_escaped_prefix:
  "chr_bs \<notin> set qs \<Longrightarrow> like_match (concat (map esc qs) @ [chr_pct]) s = startsWith_ci s qs"
proof (induction qs arbitrary: s)
  case Nil
  show ?case by (simp only: like_pct_Nil list.map concat.simps append_Nil startsWith_ci.simps)
next
  case (Cons c qs)
  then have c: "c \<noteq> chr_bs" and IH: "\<And>s. like_match (concat (map esc qs) @ [chr_pct]) s = startsWith_ci s qs"
    by auto
  show ?case
  proof (cases s)
    case Nil
    then show ?thesis using like_esc_Nil[OF c] by (simp del: like_match.simps)
  next
    case (Cons d s')
    then show ?thesis using like_esc_Cons[OF c] IH by (simp del: like_match.simps)
  qed
qed

lemma like_match_term_of:
  assumes "chr_bs \<notin> set qs"
  shows "like_match (term_of qs) t = includes_ci t qs"
proof -
  let ?P = "concat (map esc qs) @ [chr_pct]"
  have "like_match (chr_pct # ?P) t = includes_ci t qs"
  proof (induction t)
    case Nil
    have "like_match (chr_pct # ?P) [] = startsWith_ci [] qs"
      using like_escaped_prefix[OF assms, of "[]"] by (simp only: like_pct_empty)
    also have "\<dots> = (qs = [])" by (cases qs) simp_all
    finally show ?case by simp
  next
    case (Cons b t)
    show ?case
      using Cons.IH like_escaped_prefix[OF assms, of "b # t"]
      by (simp only: like_pct_Cons includes_ci.simps)
  qed
  then show ?thesis by (simp add: term_of_def replace_us_pct del: like_match.simps)
qed

lemma set_esc: "set (esc c) \<subseteq> {c, chr_bs}"
  by (auto simp: esc_def)

lemma c_str_term_of: "chr_nul \<notin> set qs \<Longrightarrow> c_str (term_of qs) = term_of qs"
proof -
  assume a: "chr_nul \<notin> set qs"
  have "set (concat (map esc qs)) \<subseteq> set qs \<union> {chr_bs}"
    using set_esc by fastforce
  then have "chr_nul \<notin> set (term_of qs)"
    using a by (auto simp: term_of_def replace_us_pct chr_defs)
  then have "\<forall>x\<in>set (term_of qs). x \<noteq> chr_nul" by blast
  then show ?thesis unfolding c_str_def by (simp only: takeWhile_eq_all_conv)
qed

text \<open>For a term without backslash and without NUL, the pattern of the search matches
  exactly the titles that contain the term up to the case of ASCII letters.\<close>

lemma like_term_of:
  assumes "chr_bs \<notin> set qs" and "chr_nul \<notin> set qs"
  shows "sql_like (term_of qs) t = includes_ci (c_str t) qs"
  by (simp add: sql_like_def c_str_term_of[OF assms(2)] like_match_term_of[OF assms(1)])

lemma startsWith_ci_iff:
  "startsWith_ci s x \<longleftrightarrow> (\<exists>v w. s = v @ w \<and> map lower v = map lower x)"
proof (induction s x rule: startsWith_ci.induct)
  case (1 s)
  show ?case by simp
next
  case (2 a p)
  show ?case by simp
next
  case (3 b s a p)
  show ?case
  proof
    assume "startsWith_ci (b # s) (a # p)"
    then have ab: "lower a = lower b" and "startsWith_ci s p" by simp_all
    with 3 obtain v w where "s = v @ w" "map lower v = map lower p" by blast
    then have "b # s = (b # v) @ w \<and> map lower (b # v) = map lower (a # p)"
      using ab by simp
    then show "\<exists>v w. b # s = v @ w \<and> map lower v = map lower (a # p)" by blast
  next
    assume "\<exists>v w. b # s = v @ w \<and> map lower v = map lower (a # p)"
    then obtain v w where e: "b # s = v @ w" and m: "map lower v = map lower (a # p)" by blast
    from m obtain v0 v' where v: "v = v0 # v'" by (cases v) auto
    with e m have "v0 = b" "s = v' @ w" "lower b = lower a" "map lower v' = map lower p"
      by auto
    with 3 show "startsWith_ci (b # s) (a # p)" by auto
  qed
qed

lemma includes_ci_iff:
  "includes_ci t x \<longleftrightarrow> (\<exists>u v w. t = u @ v @ w \<and> map lower v = map lower x)"
proof (induction t)
  case Nil
  show ?case by auto
next
  case (Cons b t)
  show ?case
  proof
    assume "includes_ci (b # t) x"
    then consider "startsWith_ci (b # t) x" | "includes_ci t x" by auto
    then show "\<exists>u v w. b # t = u @ v @ w \<and> map lower v = map lower x"
    proof cases
      case 1
      then obtain v w where "b # t = [] @ v @ w" "map lower v = map lower x"
        using startsWith_ci_iff[of "b # t" x] by auto
      then show ?thesis by blast
    next
      case 2
      with Cons obtain u v w where "t = u @ v @ w" "map lower v = map lower x" by blast
      then have "b # t = (b # u) @ v @ w \<and> map lower v = map lower x" by simp
      then show ?thesis by blast
    qed
  next
    assume "\<exists>u v w. b # t = u @ v @ w \<and> map lower v = map lower x"
    then obtain u v w where e: "b # t = u @ v @ w" and m: "map lower v = map lower x" by blast
    show "includes_ci (b # t) x"
    proof (cases u)
      case Nil
      with e m have "startsWith_ci (b # t) x" using startsWith_ci_iff[of "b # t" x] by auto
      then show ?thesis by simp
    next
      case (Cons u0 u')
      with e have "t = u' @ v @ w" by simp
      with m Cons.IH have "includes_ci t x" by blast
      then show ?thesis by simp
    qed
  qed
qed

lemma startsWith_iff: "startsWith s x \<longleftrightarrow> (\<exists>w. s = x @ w)"
  by (induction s x rule: startsWith.induct) auto

lemma includes_str_iff: "includes_str t x \<longleftrightarrow> (\<exists>u w. t = u @ x @ w)"
proof (induction t)
  case Nil
  show ?case by auto
next
  case (Cons b t)
  show ?case
  proof
    assume "includes_str (b # t) x"
    then consider "startsWith (b # t) x" | "includes_str t x" by auto
    then show "\<exists>u w. b # t = u @ x @ w"
    proof cases
      case 1
      then obtain w where "b # t = [] @ x @ w" using startsWith_iff[of "b # t" x] by auto
      then show ?thesis by blast
    next
      case 2
      with Cons obtain u w where "t = u @ x @ w" by blast
      then have "b # t = (b # u) @ x @ w" by simp
      then show ?thesis by blast
    qed
  next
    assume "\<exists>u w. b # t = u @ x @ w"
    then obtain u w where e: "b # t = u @ x @ w" by blast
    show "includes_str (b # t) x"
    proof (cases u)
      case Nil
      with e have "startsWith (b # t) x" using startsWith_iff[of "b # t" x] by auto
      then show ?thesis by simp
    next
      case (Cons u0 u')
      with e have "t = u' @ x @ w" by simp
      with Cons.IH have "includes_str t x" by blast
      then show ?thesis by simp
    qed
  qed
qed


section \<open>The rows a search returns\<close>

lemmas row_defs = lower_def is_upper_def chr_defs sql_like_def c_str_def depth_eq_1_def
lemmas search_defs = ichi_search_def ichi_search_server_js_def q_of_def trim_def is_ws_def
  term_of_def replace_us_def replace_pct_def limit_of_def Math_min_def parseInt_def
  parse_digits_def digits_val_def is_digit_def digit_val_def
  search_sql_def search_sql_server_js_def sql_limit_def order_by_def
  LTRIM_sp_def REPLACE_dash_def

lemma clean_title_eq:
  "LTRIM_sp (REPLACE_dash t) = filter (\<lambda>c. c \<noteq> chr_dash) (strip_padding t)"
  by (induction t) (simp_all add: LTRIM_sp_def REPLACE_dash_def strip_padding_def chr_defs)

lemma clean_title_no_dash: "chr_dash \<notin> set (LTRIM_sp (REPLACE_dash t))"
  by (simp add: clean_title_eq)

lemma clean_title_no_leading_space:
  "LTRIM_sp (REPLACE_dash t) \<noteq> [] \<Longrightarrow> hd (LTRIM_sp (REPLACE_dash t)) \<noteq> chr_sp"
  unfolding LTRIM_sp_def using hd_dropWhile[of "\<lambda>c. c = chr_sp" "REPLACE_dash t"] by simp

lemma set_sql_limit: "set (sql_limit n xs) \<subseteq> set xs"
  by (auto simp: sql_limit_def dest: in_set_takeD)

lemma set_insert_by: "set (insert_by k x ys) = insert x (set ys)"
  by (induction ys) auto

lemma set_order_by: "set (order_by k xs) = set xs"
  by (induction xs) (simp_all add: order_by_def set_insert_by)

lemma search_sql_rows:
  assumes "search_sql sch db pat lim = Inr rows" and "(t, c) \<in> set rows"
  shows "\<exists>r\<in>set db. DepthInKind r = 1 \<and> sql_like pat (Title r) \<and>
           t = LTRIM_sp (REPLACE_dash (Title r)) \<and> c = Code r"
proof -
  from assms(1) obtain n where n: "lim = Some n"
    by (cases lim) (simp_all add: search_sql_def)
  let ?F = "filter (\<lambda>r. depth_eq_1 sch r \<and> sql_like pat (Title r)) db"
  from assms n have "(t, c) \<in> (\<lambda>r. (LTRIM_sp (REPLACE_dash (Title r)), Code r)) ` set (sql_limit n (order_by Code ?F))"
    by (auto simp: search_sql_def)
  then obtain r where r: "r \<in> set (sql_limit n (order_by Code ?F))"
    and tc: "t = LTRIM_sp (REPLACE_dash (Title r))" "c = Code r" by auto
  from r set_sql_limit[of n "order_by Code ?F"] have "r \<in> set ?F" by (auto simp: set_order_by)
  with tc show ?thesis by (auto simp: depth_eq_1_def)
qed

lemma ichi_search_rows:
  assumes "json (ichi_search sch db req) = SearchBody qs k rows"
  shows "search_sql sch db (term_of qs) (limit_of req) = Inr rows"
  using assms
  by (auto simp: ichi_search_def Let_def split: sum.splits if_splits)

lemma ichi_search_depth1:
  assumes "json (ichi_search sch db req) = SearchBody qs k rows" and "(t, c) \<in> set rows"
  shows "\<exists>r\<in>set db. DepthInKind r = 1 \<and> c = Code r \<and> t = LTRIM_sp (REPLACE_dash (Title r))"
  using search_sql_rows[OF ichi_search_rows[OF assms(1)] assms(2)] by blast

lemma ichi_search_no_padding:
  assumes "json (ichi_search sch db req) = SearchBody qs k rows" and "(t, c) \<in> set rows"
  shows "chr_dash \<notin> set t \<and> (t \<noteq> [] \<longrightarrow> hd t \<noteq> chr_sp)"
  using search_sql_rows[OF ichi_search_rows[OF assms(1)] assms(2)]
    clean_title_no_dash clean_title_no_leading_space by blast

lemma length_insert_by: "length (insert_by k x ys) = Suc (length ys)"
  by (induction ys) auto

lemma length_order_by: "length (order_by k xs) = length xs"
  by (induction xs) (simp_all add: order_by_def length_insert_by)

lemma sql_limit_all: "int (length xs) \<le> n \<Longrightarrow> sql_limit n xs = xs"
  by (simp add: sql_limit_def)

text \<open>A matching leaf row of a table no longer than the limit is returned, with its title
  cleaned.\<close>

lemma ichi_search_returns:
  assumes "query_q req = Some (QStr s)" and "trim s \<noteq> []" and "limit_of req = Some n"
    and "int (length db) \<le> n" and "depth_typed sch" and "r \<in> set db"
    and "DepthInKind r = 1" and "sql_like (term_of (trim s)) (Title r)"
  shows "\<exists>rows. ichi_search sch db req =
           \<lparr>status = 200, json = SearchBody (trim s) (length rows) rows,
            calls = [SearchCall (term_of (trim s)) (Some n)]\<rparr> \<and>
           (LTRIM_sp (REPLACE_dash (Title r)), Code r) \<in> set rows"
proof -
  let ?F = "filter (\<lambda>r. depth_eq_1 sch r \<and> sql_like (term_of (trim s)) (Title r)) db"
  let ?rows = "map (\<lambda>r. (LTRIM_sp (REPLACE_dash (Title r)), Code r)) (order_by Code ?F)"
  have q: "q_of req = Inr (trim s)" using assms(1) by (simp add: q_of_def)
  have "length (order_by Code ?F) \<le> length db" by (simp add: length_order_by)
  then have lim: "sql_limit n (order_by Code ?F) = order_by Code ?F"
    using assms(4) by (intro sql_limit_all) simp
  have sq: "search_sql sch db (term_of (trim s)) (Some n) = Inr ?rows"
    by (simp add: search_sql_def lim)
  have resp: "ichi_search sch db req =
           \<lparr>status = 200, json = SearchBody (trim s) (length ?rows) ?rows,
            calls = [SearchCall (term_of (trim s)) (Some n)]\<rparr>"
    using assms(2,3) by (simp add: ichi_search_def q Let_def sq)
  have "r \<in> set (order_by Code ?F)"
    using assms(5-8) by (simp add: set_order_by depth_eq_1_def)
  then have "(LTRIM_sp (REPLACE_dash (Title r)), Code r) \<in> set ?rows"
    unfolding set_map by (rule imageI)
  with resp show ?thesis by blast
qed


section \<open>Properties of the routes\<close>

lemma trim_empty_iff: "trim s = [] \<longleftrightarrow> (\<forall>c\<in>set s. is_ws c)"
proof -
  have "trim s = [] \<longleftrightarrow> (\<forall>x\<in>set (dropWhile is_ws s). is_ws x)"
    by (simp add: trim_def)
  also have "\<dots> \<longleftrightarrow> dropWhile is_ws s = []"
  proof
    assume a: "\<forall>x\<in>set (dropWhile is_ws s). is_ws x"
    show "dropWhile is_ws s = []"
    proof (rule ccontr)
      assume ne: "dropWhile is_ws s \<noteq> []"
      then have "\<not> is_ws (hd (dropWhile is_ws s))" by (rule hd_dropWhile)
      moreover have "hd (dropWhile is_ws s) \<in> set (dropWhile is_ws s)" using ne by simp
      ultimately show False using a by blast
    qed
  next
    assume e: "dropWhile is_ws s = []"
    show "\<forall>x\<in>set (dropWhile is_ws s). is_ws x" unfolding e by simp
  qed
  also have "\<dots> \<longleftrightarrow> (\<forall>c\<in>set s. is_ws c)" by simp
  finally show ?thesis .
qed

lemma q_of_blank:
  "query_q req = None \<or> (\<exists>s. query_q req = Some (QStr s) \<and> (\<forall>c\<in>set s. is_ws c)) \<Longrightarrow> q_of req = Inr []"
  by (auto simp: q_of_def trim_empty_iff)

lemma q_of_nonblank:
  "query_q req = Some (QStr s) \<Longrightarrow> \<exists>c\<in>set s. \<not> is_ws c \<Longrightarrow> q_of req = Inr (trim s) \<and> trim s \<noteq> []"
  by (auto simp: q_of_def trim_empty_iff)

text \<open>
  Claim C9. A search request whose \<open>q\<close> is missing, empty or made of white space only is
  answered by both servers with status 400 and the body \<open>{error: "Missing query parameter q"}\<close>,
  and no statement is run against the store. A request whose \<open>q\<close> is a string with a
  character that is not white space is not rejected in this way: the search statement is
  run with the pattern built from the trimmed term.
\<close>

theorem missing_q_rejected:
  "(query_q req = None \<or> (\<exists>s. query_q req = Some (QStr s) \<and> (\<forall>c\<in>set s. is_ws c)) \<longrightarrow>
      ichi_search sch db req =
        \<lparr>status = 400, json = ErrorBody ''Missing query parameter q'', calls = []\<rparr> \<and>
      ichi_search_server_js db req =
        \<lparr>status = 400, json = ErrorBody ''Missing query parameter q'', calls = []\<rparr>) \<and>
   (\<forall>s. query_q req = Some (QStr s) \<and> (\<exists>c\<in>set s. \<not> is_ws c) \<longrightarrow>
      status (ichi_search sch db req) \<noteq> 400 \<and>
      json (ichi_search sch db req) \<noteq> ErrorBody ''Missing query parameter q'' \<and>
      calls (ichi_search sch db req) = [SearchCall (term_of (trim s)) (limit_of req)] \<and>
      status (ichi_search_server_js db req) \<noteq> 400 \<and>
      json (ichi_search_server_js db req) \<noteq> ErrorBody ''Missing query parameter q'' \<and>
      calls (ichi_search_server_js db req) = [SearchCall (term_of (trim s)) (limit_of req)])"
proof (intro conjI impI allI)
  assume b: "query_q req = None \<or> (\<exists>s. query_q req = Some (QStr s) \<and> (\<forall>c\<in>set s. is_ws c))"
  show "ichi_search sch db req =
        \<lparr>status = 400, json = ErrorBody ''Missing query parameter q'', calls = []\<rparr>"
    by (simp add: ichi_search_def q_of_blank[OF b])
  show "ichi_search_server_js db req =
        \<lparr>status = 400, json = ErrorBody ''Missing query parameter q'', calls = []\<rparr>"
    by (simp add: ichi_search_server_js_def q_of_blank[OF b])
next
  fix s assume a: "query_q req = Some (QStr s) \<and> (\<exists>c\<in>set s. \<not> is_ws c)"
  then have qo: "q_of req = Inr (trim s)" and ne: "trim s \<noteq> []"
    using q_of_nonblank[of req s] by auto
  show "status (ichi_search sch db req) \<noteq> 400"
    using ne by (simp add: ichi_search_def qo Let_def split: sum.split)
  show "json (ichi_search sch db req) \<noteq> ErrorBody ''Missing query parameter q''"
    using ne by (simp add: ichi_search_def qo Let_def split: sum.split)
  show "calls (ichi_search sch db req) = [SearchCall (term_of (trim s)) (limit_of req)]"
    using ne by (simp add: ichi_search_def qo Let_def split: sum.split)
  show "status (ichi_search_server_js db req) \<noteq> 400"
    using ne by (simp add: ichi_search_server_js_def qo Let_def split: sum.split)
  show "json (ichi_search_server_js db req) \<noteq> ErrorBody ''Missing query parameter q''"
    using ne by (simp add: ichi_search_server_js_def qo Let_def split: sum.split)
  show "calls (ichi_search_server_js db req) = [SearchCall (term_of (trim s)) (limit_of req)]"
    using ne by (simp add: ichi_search_server_js_def qo Let_def split: sum.split)
qed

text \<open>
  Claim C7. The column name the list route puts after \<open>ORDER BY\<close> is \<open>Code\<close> or \<open>Title\<close> and
  nothing else; a request whose \<open>sort\<close> is anything but the string \<open>Title\<close> (absent, \<open>Code\<close>,
  any other string, a non-string value) gets the response of the same request with
  \<open>sort=Code\<close>, from both servers.
\<close>

theorem sort_whitelist:
  "(sortColumn req = ''Code'' \<or> sortColumn req = ''Title'') \<and>
   (query_sort req \<noteq> Some (QStr ''Title'') \<longrightarrow>
      sortColumn req = ''Code'' \<and>
      ichi_list db req = ichi_list db (req\<lparr>query_sort := Some (QStr ''Code'')\<rparr>) \<and>
      ichi_list_server_js db req = ichi_list_server_js db (req\<lparr>query_sort := Some (QStr ''Code'')\<rparr>))"
  by (simp add: sortColumn_def ichi_list_def ichi_list_server_js_def limit_of_def offset_of_def)

theorem missing_q_rejected_witness:
  "ichi_search lower_schema [] \<lparr>query_q = Some (QStr ''  ''), query_limit = None, query_offset = None, query_sort = None\<rparr> =
     \<lparr>status = 400, json = ErrorBody ''Missing query parameter q'', calls = []\<rparr> \<and>
   calls (ichi_search lower_schema [] \<lparr>query_q = Some (QStr '' append''), query_limit = None, query_offset = None, query_sort = None\<rparr>)
     = [SearchCall ''%append%'' (Some 100)]"
proof -
  let ?r1 = "\<lparr>query_q = Some (QStr ''  ''), query_limit = None, query_offset = None, query_sort = None\<rparr>"
  let ?r2 = "\<lparr>query_q = Some (QStr '' append''), query_limit = None, query_offset = None, query_sort = None\<rparr>"
  have h1: "query_q ?r1 = None \<or> (\<exists>s. query_q ?r1 = Some (QStr s) \<and> (\<forall>c\<in>set s. is_ws c))"
    by (simp add: is_ws_def)
  have h2: "query_q ?r2 = Some (QStr '' append'') \<and> (\<exists>c\<in>set '' append''. \<not> is_ws c)"
    by (simp add: is_ws_def)
  have t: "term_of (trim '' append'') = ''%append%''"
    by (simp add: term_of_def trim_def is_ws_def replace_us_def replace_pct_def chr_pct_def chr_us_def)
  have l: "limit_of ?r2 = Some 100"
    by (simp add: limit_of_def Math_min_def parse_defs)
  from missing_q_rejected[of ?r1 lower_schema "[]"] h1 missing_q_rejected[of ?r2 lower_schema "[]"] h2 t l
  show ?thesis by metis
qed

theorem sort_whitelist_witness:
  "ichi_list [] \<lparr>query_q = None, query_limit = None, query_offset = None, query_sort = Some (QStr ''Code; DROP TABLE ICHI'')\<rparr>
   = ichi_list [] \<lparr>query_q = None, query_limit = None, query_offset = None, query_sort = Some (QStr ''Code'')\<rparr>"
  using sort_whitelist[of "\<lparr>query_q = None, query_limit = None, query_offset = None, query_sort = Some (QStr ''Code; DROP TABLE ICHI'')\<rparr>" "[]"]
  by simp

text \<open>
  Claim C6 on both list routes: the limit is capped from above with \<open>Math.min\<close> and has no
  bound from below, unlike the offset beside it. For the request \<open>limit=-1\<close> the effective
  limit is -1, which the database reads as no limit: the response carries every row of
  the table, however many there are.
\<close>

theorem negative_limit_returns_all:
  "ichi_list db
     \<lparr>query_q = None, query_limit = Some (QStr ''-1''), query_offset = None, query_sort = None\<rparr>
   = \<lparr>status = 200,
      json = ListBody (length db) (Some (- 1)) (Some 0)
               (map (\<lambda>r. (Code r, BlockId r, Title r, ClassKind r, DepthInKind r))
                  (order_by Code db)),
      calls = [ListCall ''Code'' (Some (- 1)) (Some 0)]\<rparr> \<and>
   ichi_list_server_js db
     \<lparr>query_q = None, query_limit = Some (QStr ''-1''), query_offset = None, query_sort = None\<rparr>
   = \<lparr>status = 200,
      json = ListBody_server_js (length db) (Some (- 1)) (Some 0)
               (map (\<lambda>r. (Code r, Title r)) (order_by Code db)),
      calls = [ListCall ''Code'' (Some (- 1)) (Some 0)]\<rparr>"
proof -
  let ?req = "\<lparr>query_q = None, query_limit = Some (QStr ''-1''), query_offset = None,
               query_sort = None\<rparr>"
  have l: "limit_of ?req = Some (- 1)" by (simp add: limit_of_def Math_min_def parse_defs)
  have o: "offset_of ?req = Some 0" by (simp add: offset_of_def Math_max_def parse_defs)
  have c: "sortColumn ?req = ''Code''" by (simp add: sortColumn_def)
  have s: "list_sql db ''Code'' (Some (- 1)) (Some 0) = Inr (order_by Code db)"
    by (simp add: list_sql_def column_of_def sql_limit_def sql_offset_def)
  show ?thesis
    by (simp add: ichi_list_def ichi_list_server_js_def Let_def l o c s length_order_by)
qed

text \<open>
  Claim C10. The title the search of the refactored server returns has no dash at all: it is
  the stored title without its padding and with every remaining dash deleted as well
  (and only leading spaces are trimmed). So for a stored title with a dash after the
  padding, the returned title is not the stored title with the padding removed; this
  holds for every row of every search response. And the search does return such titles:
  for a leaf row whose title matches the pattern of the term, in a table that has a typed
  depth column and is no longer than the limit, the response carries the row with the
  title so cleaned.
\<close>

theorem display_title_removes_every_dash:
  "chr_dash \<notin> set (LTRIM_sp (REPLACE_dash t)) \<and>
   LTRIM_sp (REPLACE_dash t) = filter (\<lambda>c. c \<noteq> chr_dash) (strip_padding t) \<and>
   (chr_dash \<in> set (strip_padding t) \<longrightarrow> LTRIM_sp (REPLACE_dash t) \<noteq> strip_padding t) \<and>
   (\<forall>qs k rows. json (ichi_search sch db req) = SearchBody qs k rows \<longrightarrow>
      (\<forall>(t', c)\<in>set rows. \<exists>r\<in>set db. c = Code r \<and> t' = LTRIM_sp (REPLACE_dash (Title r)) \<and>
          (chr_dash \<in> set (strip_padding (Title r)) \<longrightarrow> t' \<noteq> strip_padding (Title r)))) \<and>
   (\<forall>s n r. query_q req = Some (QStr s) \<and> trim s \<noteq> [] \<and> limit_of req = Some n \<and>
      int (length db) \<le> n \<and> depth_typed sch \<and> r \<in> set db \<and> DepthInKind r = 1 \<and>
      sql_like (term_of (trim s)) (Title r) \<and> chr_dash \<in> set (strip_padding (Title r)) \<longrightarrow>
      (\<exists>rows. ichi_search sch db req =
           \<lparr>status = 200, json = SearchBody (trim s) (length rows) rows,
            calls = [SearchCall (term_of (trim s)) (Some n)]\<rparr> \<and>
         (filter (\<lambda>c. c \<noteq> chr_dash) (strip_padding (Title r)), Code r) \<in> set rows \<and>
         filter (\<lambda>c. c \<noteq> chr_dash) (strip_padding (Title r)) \<noteq> strip_padding (Title r)))"
proof (intro conjI allI impI)
  show "chr_dash \<notin> set (LTRIM_sp (REPLACE_dash t))" by (rule clean_title_no_dash)
  show "LTRIM_sp (REPLACE_dash t) = filter (\<lambda>c. c \<noteq> chr_dash) (strip_padding t)"
    by (rule clean_title_eq)
  show "LTRIM_sp (REPLACE_dash t) \<noteq> strip_padding t" if "chr_dash \<in> set (strip_padding t)"
    using that clean_title_no_dash[of t] by auto
next
  fix qs k rows
  assume a: "json (ichi_search sch db req) = SearchBody qs k rows"
  show "\<forall>(t', c)\<in>set rows. \<exists>r\<in>set db. c = Code r \<and> t' = LTRIM_sp (REPLACE_dash (Title r)) \<and>
          (chr_dash \<in> set (strip_padding (Title r)) \<longrightarrow> t' \<noteq> strip_padding (Title r))"
  proof (clarify)
    fix t' c assume "(t', c) \<in> set rows"
    from ichi_search_depth1[OF a this] obtain r where r: "r \<in> set db" "c = Code r"
      "t' = LTRIM_sp (REPLACE_dash (Title r))" by blast
    moreover have "chr_dash \<in> set (strip_padding (Title r)) \<longrightarrow> t' \<noteq> strip_padding (Title r)"
      using r(3) clean_title_no_dash[of "Title r"] by auto
    ultimately show "\<exists>r\<in>set db. c = Code r \<and> t' = LTRIM_sp (REPLACE_dash (Title r)) \<and>
          (chr_dash \<in> set (strip_padding (Title r)) \<longrightarrow> t' \<noteq> strip_padding (Title r))" by blast
  qed
next
  fix s n r
  assume a: "query_q req = Some (QStr s) \<and> trim s \<noteq> [] \<and> limit_of req = Some n \<and>
      int (length db) \<le> n \<and> depth_typed sch \<and> r \<in> set db \<and> DepthInKind r = 1 \<and>
      sql_like (term_of (trim s)) (Title r) \<and> chr_dash \<in> set (strip_padding (Title r))"
  then obtain rows where resp: "ichi_search sch db req =
           \<lparr>status = 200, json = SearchBody (trim s) (length rows) rows,
            calls = [SearchCall (term_of (trim s)) (Some n)]\<rparr>"
    and mem: "(LTRIM_sp (REPLACE_dash (Title r)), Code r) \<in> set rows"
    using ichi_search_returns[of req s n db sch r] by blast
  have ne: "filter (\<lambda>c. c \<noteq> chr_dash) (strip_padding (Title r)) \<noteq> strip_padding (Title r)"
  proof
    assume "filter (\<lambda>c. c \<noteq> chr_dash) (strip_padding (Title r)) = strip_padding (Title r)"
    then have "set (strip_padding (Title r)) =
        set (filter (\<lambda>c. c \<noteq> chr_dash) (strip_padding (Title r)))" by simp
    then have "chr_dash \<notin> set (strip_padding (Title r))" by auto
    with a show False by simp
  qed
  show "\<exists>rows. ichi_search sch db req =
           \<lparr>status = 200, json = SearchBody (trim s) (length rows) rows,
            calls = [SearchCall (term_of (trim s)) (Some n)]\<rparr> \<and>
         (filter (\<lambda>c. c \<noteq> chr_dash) (strip_padding (Title r)), Code r) \<in> set rows \<and>
         filter (\<lambda>c. c \<noteq> chr_dash) (strip_padding (Title r)) \<noteq> strip_padding (Title r)"
    using resp mem ne by (auto simp: clean_title_eq)
qed

text \<open>
  The request \<open>q=invasive\<close> on a table holding the leaf entry \<open>- - Non-invasive test\<close> returns
  the title \<open>Noninvasive test\<close>, which is not \<open>Non-invasive test\<close>.
\<close>

theorem display_title_removes_every_dash_witness:
  "ichi_search lower_schema [hyphen_row] (request_q ''invasive'') =
     \<lparr>status = 200, json = SearchBody ''invasive'' 1 [(''Noninvasive test'', ''KBO.JB.AE'')],
      calls = [SearchCall ''%invasive%'' (Some 100)]\<rparr> \<and>
   strip_padding (Title hyphen_row) = ''Non-invasive test''"
proof -
  let ?req = "request_q ''invasive''"
  have t: "trim ''invasive'' = ''invasive''" by (simp add: trim_def is_ws_def)
  have pat: "term_of ''invasive'' = ''%invasive%''"
    by (simp add: term_of_def replace_us_def replace_pct_def chr_defs)
  have sp: "strip_padding (Title hyphen_row) = ''Non-invasive test''"
    by (simp add: strip_padding_def hyphen_row_def chr_defs)
  have h: "query_q ?req = Some (QStr ''invasive'') \<and> trim ''invasive'' \<noteq> [] \<and>
      limit_of ?req = Some 100 \<and> int (length [hyphen_row]) \<le> 100 \<and> depth_typed lower_schema \<and>
      hyphen_row \<in> set [hyphen_row] \<and> DepthInKind hyphen_row = 1 \<and>
      sql_like (term_of (trim ''invasive'')) (Title hyphen_row) \<and>
      chr_dash \<in> set (strip_padding (Title hyphen_row))"
    unfolding t pat sp
    by (simp add: request_q_def limit_of_def Math_min_def parse_defs lower_schema_def
        hyphen_row_def row_defs)
  from display_title_removes_every_dash[of "[]" lower_schema "[hyphen_row]" ?req] h
  obtain rows where resp: "ichi_search lower_schema [hyphen_row] ?req =
           \<lparr>status = 200, json = SearchBody (trim ''invasive'') (length rows) rows,
            calls = [SearchCall (term_of (trim ''invasive'')) (Some 100)]\<rparr>"
    and mem: "(filter (\<lambda>c. c \<noteq> chr_dash) (strip_padding (Title hyphen_row)), Code hyphen_row)
                \<in> set rows"
    by blast
  have "length rows \<le> 1"
  proof -
    from resp have "json (ichi_search lower_schema [hyphen_row] ?req) =
        SearchBody (trim ''invasive'') (length rows) rows" by simp
    from ichi_search_rows[OF this] have "search_sql lower_schema [hyphen_row]
        (term_of (trim ''invasive'')) (limit_of ?req) = Inr rows" .
    then show ?thesis
      by (auto simp: search_sql_def sql_limit_def order_by_def split: option.splits if_splits)
  qed
  with mem have "rows = [(filter (\<lambda>c. c \<noteq> chr_dash) (strip_padding (Title hyphen_row)),
                          Code hyphen_row)]"
    by (cases rows) auto
  then have "rows = [(''Noninvasive test'', ''KBO.JB.AE'')]"
    unfolding sp by (simp add: hyphen_row_def chr_defs)
  with resp sp show ?thesis unfolding t pat by simp
qed

text \<open>
  Claim C5 on both search routes: the term's \<open>%\<close> and \<open>_\<close> are escaped with a backslash, but a
  backslash of the term is not. For the term made of a backslash and \<open>%\<close> the pattern is
  \<open>%\<close>, two backslashes, \<open>%\<close>, \<open>%\<close>: the second backslash, put there to escape the term's \<open>%\<close>, is
  itself escaped by the first, and the term's \<open>%\<close> is a wildcard. The title made of \<open>a\<close>, a
  backslash and \<open>b\<close> is returned, although it does not contain the term.
\<close>

theorem search_backslash_wildcard:
  "ichi_search lower_schema [backslash_row] (request_q [chr_bs, chr_pct]) =
     \<lparr>status = 200, json = SearchBody [chr_bs, chr_pct] 1 [(Title backslash_row, ''X'')],
      calls = [SearchCall [chr_pct, chr_bs, chr_bs, chr_pct, chr_pct] (Some 100)]\<rparr> \<and>
   ichi_search_server_js [backslash_row] (request_q [chr_bs, chr_pct]) =
     \<lparr>status = 200, json = SearchBody [chr_bs, chr_pct] 1 [(Title backslash_row, ''X'')],
      calls = [SearchCall [chr_pct, chr_bs, chr_bs, chr_pct, chr_pct] (Some 100)]\<rparr> \<and>
   Title backslash_row = [CHR ''a'', chr_bs, CHR ''b''] \<and>
   \<not> includes_str (Title backslash_row) [chr_bs, chr_pct] \<and>
   \<not> includes_ci (Title backslash_row) [chr_bs, chr_pct]"
  by (simp add: search_defs row_defs request_q_def backslash_row_def lower_schema_def)

text \<open>
  Claim C4 on src/server.js: its search statement has no condition on \<open>DepthInKind\<close>. For
  a store whose only row has depth 2 and the title \<open>Drainage\<close>, the request \<open>q=drain\<close>
  returns that row. (The search of the refactored server returns rows of depth 1 only:
  lemma \<open>ichi_search_depth1\<close>.)
\<close>

theorem search_server_js_no_depth_filter:
  "ichi_search_server_js
      [\<lparr>id' = 1, Code = ''HFA'', BlockId = ''HFA'', Title = ''Drainage'', ClassKind = ''block'',
         DepthInKind = 2\<rparr>]
      \<lparr>query_q = Some (QStr ''drain''), query_limit = None, query_offset = None,
         query_sort = None\<rparr>
   = \<lparr>status = 200, json = SearchBody ''drain'' 1 [(''Drainage'', ''HFA'')],
       calls = [SearchCall ''%drain%'' (Some 100)]\<rparr>"
  by (simp add: search_defs row_defs)

text \<open>
  Claim C8 on src/server.js: its search statement selects the stored title as it is. For
  a row with the title \<open>- - Drainage of abscess\<close> the request \<open>q=abscess\<close> returns the title
  with its padding. (The search of the refactored server returns titles without a dash
  and without a leading space: lemma \<open>ichi_search_no_padding\<close>.)
\<close>

theorem search_server_js_keeps_padding:
  "ichi_search_server_js
      [\<lparr>id' = 7, Code = ''HFA.BA.01'', BlockId = ''HFA'', Title = ''- - Drainage of abscess'',
         ClassKind = ''category'', DepthInKind = 1\<rparr>]
      \<lparr>query_q = Some (QStr ''abscess''), query_limit = None, query_offset = None,
         query_sort = None\<rparr>
   = \<lparr>status = 200, json = SearchBody ''abscess'' 1 [(''- - Drainage of abscess'', ''HFA.BA.01'')],
       calls = [SearchCall ''%abscess%'' (Some 100)]\<rparr>"
  by (simp add: search_defs row_defs)


section \<open>The repair: the corrected code and the updates\<close>

subsection \<open>The corrected code\<close>

lemma split_dot_unfold:
  "split_dot s = takeWhile (\<lambda>c. c \<noteq> chr_dot) s #
     (case dropWhile (\<lambda>c. c \<noteq> chr_dot) s of [] \<Rightarrow> [] | d # t \<Rightarrow> split_dot t)"
  by (induction s) simp_all

lemma correctedCode_first_two: "correctedCode s = first_two_segments s"
proof (cases "dropWhile (\<lambda>c. c \<noteq> chr_dot) s")
  case Nil
  have "takeWhile (\<lambda>c. c \<noteq> chr_dot) s @ dropWhile (\<lambda>c. c \<noteq> chr_dot) s = s"
    by (rule takeWhile_dropWhile_id)
  then have tw: "takeWhile (\<lambda>c. c \<noteq> chr_dot) s = s" unfolding Nil by simp
  have sd: "split_dot s = [s]"
    by (subst split_dot_unfold) (simp only: Nil tw list.case)
  have "first_two_segments s = s" by (simp only: first_two_segments_def Nil list.case)
  then show ?thesis by (simp add: correctedCode_def sd)
next
  case (Cons d t)
  have sd: "split_dot s = takeWhile (\<lambda>c. c \<noteq> chr_dot) s # split_dot t"
    by (subst split_dot_unfold) (simp only: Cons list.case)
  have st: "split_dot t = takeWhile (\<lambda>c. c \<noteq> chr_dot) t #
     (case dropWhile (\<lambda>c. c \<noteq> chr_dot) t of [] \<Rightarrow> [] | d # t' \<Rightarrow> split_dot t')"
    by (rule split_dot_unfold)
  have "first_two_segments s =
      takeWhile (\<lambda>c. c \<noteq> chr_dot) s @ [chr_dot] @ takeWhile (\<lambda>c. c \<noteq> chr_dot) t"
    by (simp only: first_two_segments_def Cons list.case)
  moreover have "correctedCode s =
      takeWhile (\<lambda>c. c \<noteq> chr_dot) s @ [chr_dot] @ takeWhile (\<lambda>c. c \<noteq> chr_dot) t"
    unfolding correctedCode_def sd by (subst st) simp
  ultimately show ?thesis by simp
qed

lemma is_flat_iff:
  "is_flat code \<longleftrightarrow>
     (\<exists>us ds. code = us @ ds \<and> us \<noteq> [] \<and> (\<forall>c\<in>set us. is_upper c) \<and> (\<forall>c\<in>set ds. is_digit c))"
proof
  assume "is_flat code"
  then have "code = takeWhile is_upper code @ dropWhile is_upper code \<and>
      takeWhile is_upper code \<noteq> [] \<and> (\<forall>c\<in>set (takeWhile is_upper code). is_upper c) \<and>
      (\<forall>c\<in>set (dropWhile is_upper code). is_digit c)"
    by (auto simp: is_flat_def list_all_iff dest: set_takeWhileD)
  then show "\<exists>us ds. code = us @ ds \<and> us \<noteq> [] \<and> (\<forall>c\<in>set us. is_upper c) \<and> (\<forall>c\<in>set ds. is_digit c)"
    by blast
next
  assume "\<exists>us ds. code = us @ ds \<and> us \<noteq> [] \<and> (\<forall>c\<in>set us. is_upper c) \<and> (\<forall>c\<in>set ds. is_digit c)"
  then obtain us ds where c: "code = us @ ds" and ne: "us \<noteq> []"
    and u: "\<forall>c\<in>set us. is_upper c" and d: "\<forall>c\<in>set ds. is_digit c" by blast
  have t: "takeWhile is_upper code = us @ takeWhile is_upper ds"
    using u by (simp add: c takeWhile_append2)
  have dr: "dropWhile is_upper code = dropWhile is_upper ds"
    using u by (simp add: c dropWhile_append2)
  have "\<forall>c\<in>set (dropWhile is_upper ds). is_digit c" using d by (auto dest: set_dropWhileD)
  then show "is_flat code" using ne by (simp add: is_flat_def t dr list_all_iff)
qed

lemma undefined_not_flat: "\<not> is_flat ''undefined''"
  by (simp add: is_flat_def is_upper_def)

lemma parent_cond_iff:
  "parent_cond row r \<longleftrightarrow>
     ((\<exists>u w. Title r = u @ Title row @ w) \<and> (\<exists>w. Code r = Code row @ w) \<and> Code r \<noteq> Code row)"
  by (simp add: parent_cond_def includes_str_iff startsWith_iff)

subsection \<open>The script on a table with the names it reads\<close>

lemma lower_names_props:
  assumes "lower_names sch"
  shows "row_id sch r = Some (id' r)" and "row_code sch r = Some (Code r)"
    and "row_title sch r = Some (Title r)"
  using assms by (simp_all add: lower_names_def row_id_def row_code_def row_title_def)

lemma is_parent_of_lower:
  "lower_names sch \<Longrightarrow> is_parent_of sch row r = Inr (parent_cond row r)"
  by (simp add: is_parent_of_def parent_cond_def lower_names_props js_string_def)

lemma js_find_total: "js_find (\<lambda>r. Inr (P r)) xs = Inr (find P xs)"
  by (induction xs) simp_all

lemma find_parent_lower:
  "lower_names sch \<Longrightarrow> find_parent sch rows row = Inr (find (parent_cond row) rows)"
proof -
  assume a: "lower_names sch"
  have "is_parent_of sch row = (\<lambda>r. Inr (parent_cond row r))"
    by (rule ext) (simp add: is_parent_of_lower[OF a])
  then show ?thesis by (simp add: find_parent_def js_find_total)
qed

lemma fix_row_lower: "lower_names sch \<Longrightarrow> fix_row sch rows row = Inr (plain_fix_row rows row)"
  by (simp add: fix_row_def plain_fix_row_def find_parent_lower lower_names_props js_string_def
      split: option.split)

lemma forEach_lower:
  "lower_names sch \<Longrightarrow> forEach sch rows xs = (List.map_filter (plain_fix_row rows) xs, None)"
  by (induction xs) (simp_all add: fix_row_lower List.map_filter_def split: option.split)

lemma fixCodes_lower:
  "lower_names sch \<Longrightarrow>
   fixCodes sch rows = (foldl (db_run sch) rows (List.map_filter (plain_fix_row rows) rows), None)"
  by (simp add: fixCodes_def forEach_lower) (simp add: lower_names_def)


subsection \<open>The updates issued\<close>

lemma plain_fix_row_id: "plain_fix_row rows r = Some u \<Longrightarrow> snd u = Some (id' r)"
  by (auto simp: plain_fix_row_def split: if_splits)

lemma map_filter_Cons:
  "List.map_filter f (x # xs) =
     (case f x of None \<Rightarrow> List.map_filter f xs | Some u \<Rightarrow> u # List.map_filter f xs)"
  by (simp add: List.map_filter_def split: option.split)

lemma map_filter_mem:
  "u \<in> set (List.map_filter f xs) \<longleftrightarrow> (\<exists>x\<in>set xs. f x = Some u)"
  by (induction xs) (auto simp: map_filter_Cons List.map_filter_def split: option.splits)

lemma plain_updates_distinct:
  "distinct (map id' xs) \<Longrightarrow> distinct (map snd (List.map_filter (plain_fix_row rows) xs))"
proof (induction xs)
  case Nil
  show ?case by (simp add: List.map_filter_def)
next
  case (Cons x xs)
  then have d: "distinct (map snd (List.map_filter (plain_fix_row rows) xs))"
    and nx: "id' x \<notin> id' ` set xs" by auto
  show ?case
  proof (cases "plain_fix_row rows x")
    case None
    then show ?thesis using d by (simp add: map_filter_Cons)
  next
    case (Some u)
    then have su: "snd u = Some (id' x)" by (rule plain_fix_row_id)
    have "snd u \<notin> snd ` set (List.map_filter (plain_fix_row rows) xs)"
    proof
      assume "snd u \<in> snd ` set (List.map_filter (plain_fix_row rows) xs)"
      then obtain v where v: "v \<in> set (List.map_filter (plain_fix_row rows) xs)" "snd v = snd u"
        by auto
      then obtain y where y: "y \<in> set xs" "plain_fix_row rows y = Some v"
        by (auto simp: map_filter_mem)
      then have "snd v = Some (id' y)" using plain_fix_row_id by blast
      with v(2) su have "id' y = id' x" by simp
      with y(1) nx show False by (metis imageI)
    qed
    with Some d show ?thesis by (simp add: map_filter_Cons)
  qed
qed


subsection \<open>Running the updates\<close>

lemma set_code_id: "id' (set_code c i r) = id' r"
  by (simp add: set_code_def)


lemma db_run_cases:
  "db_run sch db u = db \<or> (\<exists>i. snd u = Some i \<and> db_run sch db u = map (set_code (fst u) i) db)"
  by (auto simp: db_run_def Let_def split: option.splits)



lemma db_run_distinct:
  "code_unique sch \<Longrightarrow> distinct (map Code db) \<Longrightarrow> distinct (map Code (db_run sch db u))"
  by (auto simp: db_run_def Let_def split: option.splits)



lemma foldl_db_run_distinct:
  "code_unique sch \<Longrightarrow> distinct (map Code db) \<Longrightarrow>
   distinct (map Code (foldl (db_run sch) db us))"
  by (induction us arbitrary: db) (simp_all add: db_run_distinct)


text \<open>Whatever is accepted or refused, the table after a list of updates is the table before
  with some rows carrying the code of an update for their id.\<close>

lemma foldl_db_run_map:
  "\<exists>h. foldl (db_run sch) db us = map h db \<and>
       (\<forall>r. h r = r \<or> (\<exists>c. (c, Some (id' r)) \<in> set us \<and> h r = r\<lparr>Code := c\<rparr>))"
proof (induction us arbitrary: db)
  case Nil
  have "foldl (db_run sch) db [] = map (\<lambda>r. r) db" by simp
  then show ?case by blast
next
  case (Cons u us)
  from db_run_cases[of sch db u] show ?case
  proof
    assume same: "db_run sch db u = db"
    from Cons.IH[of db] obtain h where h: "foldl (db_run sch) db us = map h db"
      "\<forall>r. h r = r \<or> (\<exists>c. (c, Some (id' r)) \<in> set us \<and> h r = r\<lparr>Code := c\<rparr>)" by blast
    have "foldl (db_run sch) db (u # us) = map h db" using same h(1) by simp
    moreover have "\<forall>r. h r = r \<or> (\<exists>c. (c, Some (id' r)) \<in> set (u # us) \<and> h r = r\<lparr>Code := c\<rparr>)"
      using h(2) by (metis list.set_intros(2))
    ultimately show ?thesis by blast
  next
    assume "\<exists>i. snd u = Some i \<and> db_run sch db u = map (set_code (fst u) i) db"
    then obtain i where i: "snd u = Some i" and run: "db_run sch db u = map (set_code (fst u) i) db"
      by blast
    have u: "u = (fst u, Some i)" using i by (cases u) simp
    from Cons.IH[of "map (set_code (fst u) i) db"] obtain h where
      h: "foldl (db_run sch) (map (set_code (fst u) i) db) us = map h (map (set_code (fst u) i) db)"
      "\<forall>r. h r = r \<or> (\<exists>c. (c, Some (id' r)) \<in> set us \<and> h r = r\<lparr>Code := c\<rparr>)" by blast
    let ?g = "\<lambda>r. h (set_code (fst u) i r)"
    have "foldl (db_run sch) db (u # us) = map ?g db" using run h(1) by (simp add: comp_def)
    moreover have "\<forall>r. ?g r = r \<or> (\<exists>c. (c, Some (id' r)) \<in> set (u # us) \<and> ?g r = r\<lparr>Code := c\<rparr>)"
    proof
      fix r
      show "?g r = r \<or> (\<exists>c. (c, Some (id' r)) \<in> set (u # us) \<and> ?g r = r\<lparr>Code := c\<rparr>)"
      proof (cases "id' r = i")
        case False
        then have "set_code (fst u) i r = r" by (simp add: set_code_def)
        then show ?thesis using h(2) by (metis list.set_intros(2))
      next
        case True
        then have sc: "set_code (fst u) i r = r\<lparr>Code := fst u\<rparr>" by (simp add: set_code_def)
        from h(2) have "h (r\<lparr>Code := fst u\<rparr>) = r\<lparr>Code := fst u\<rparr> \<or>
            (\<exists>c. (c, Some (id' (r\<lparr>Code := fst u\<rparr>))) \<in> set us \<and>
                 h (r\<lparr>Code := fst u\<rparr>) = r\<lparr>Code := fst u\<rparr>\<lparr>Code := c\<rparr>)" by blast
        then show ?thesis
        proof
          assume "h (r\<lparr>Code := fst u\<rparr>) = r\<lparr>Code := fst u\<rparr>"
          moreover have "(fst u, Some (id' r)) \<in> set (u # us)" using u True by simp
          ultimately show ?thesis unfolding sc by blast
        next
          assume "\<exists>c. (c, Some (id' (r\<lparr>Code := fst u\<rparr>))) \<in> set us \<and>
                 h (r\<lparr>Code := fst u\<rparr>) = r\<lparr>Code := fst u\<rparr>\<lparr>Code := c\<rparr>"
          then obtain c where "(c, Some (id' r)) \<in> set us" "h (r\<lparr>Code := fst u\<rparr>) = r\<lparr>Code := c\<rparr>"
            by auto
          then show ?thesis unfolding sc by auto
        qed
      qed
    qed
    ultimately show ?thesis by blast
  qed
qed


lemma map_keeps_id:
  assumes "\<forall>r. h r = r \<or> (\<exists>c. (c, Some (id' r)) \<in> set us \<and> h r = r\<lparr>Code := c\<rparr>)"
  shows "id' (h y) = id' y"
  using assms[rule_format, of y] by auto

lemma map_untouched:
  assumes "\<forall>r. h r = r \<or> (\<exists>c. (c, Some (id' r)) \<in> set us \<and> h r = r\<lparr>Code := c\<rparr>)"
    and "\<forall>c. (c, Some (id' y)) \<notin> set us"
  shows "h y = y"
  using assms(1)[rule_format, of y] assms(2) by auto

lemma split_update:
  assumes "distinct (map snd us)" and "(c, Some i) \<in> set us"
  shows "\<exists>pre post. us = pre @ (c, Some i) # post \<and> (\<forall>c'. (c', Some i) \<notin> set pre) \<and>
           (\<forall>c'. (c', Some i) \<notin> set post)"
proof -
  from split_list[OF assms(2)] obtain pre post where us: "us = pre @ (c, Some i) # post" by blast
  from assms(1) have "Some i \<notin> snd ` set pre" "Some i \<notin> snd ` set post"
    unfolding us by auto
  then have "\<forall>c'. (c', Some i) \<notin> set pre" "\<forall>c'. (c', Some i) \<notin> set post"
    by (force)+
  with us show ?thesis by blast
qed

text \<open>An update is accepted, and stays, when the table has no uniqueness constraint, or
  when its code is neither the code of another row nor the code of another update.\<close>

lemma update_accepted:
  assumes ids: "distinct (map id' db)" and dus: "distinct (map snd us)"
    and mem: "(c, Some i) \<in> set us" and rin: "r \<in> set db" and ri: "id' r = i"
    and acc: "code_unique sch \<Longrightarrow> distinct (map Code db) \<and>
               (\<forall>x\<in>set db. id' x \<noteq> i \<longrightarrow> Code x \<noteq> c) \<and>
               (\<forall>u\<in>set us. snd u \<noteq> Some i \<longrightarrow> fst u \<noteq> c)"
  shows "r\<lparr>Code := c\<rparr> \<in> set (foldl (db_run sch) db us) \<and>
         (\<forall>x\<in>set (foldl (db_run sch) db us). id' x = i \<longrightarrow> x = r\<lparr>Code := c\<rparr>)"
proof -
  from split_update[OF dus mem] obtain pre post where us: "us = pre @ (c, Some i) # post"
    and npre: "\<forall>c'. (c', Some i) \<notin> set pre" and npost: "\<forall>c'. (c', Some i) \<notin> set post" by blast
  from foldl_db_run_map[of sch db pre] obtain h1 where h1: "foldl (db_run sch) db pre = map h1 db"
    and p1: "\<forall>r. h1 r = r \<or> (\<exists>c. (c, Some (id' r)) \<in> set pre \<and> h1 r = r\<lparr>Code := c\<rparr>)" by blast
  have id1: "id' (h1 y) = id' y" for y by (rule map_keeps_id[OF p1])
  have inj_id: "inj_on id' (set db)" and ddb: "distinct db" using ids by (simp_all add: distinct_map)
  let ?f = "\<lambda>y. Code (set_code c i (h1 y))"
  have run: "db_run sch (map h1 db) (c, Some i) = map (set_code c i) (map h1 db)"
  proof (cases "code_unique sch")
    case False
    then show ?thesis by (simp add: db_run_def)
  next
    case True
    from acc[OF True] have dc: "distinct (map Code db)"
      and oc: "\<forall>x\<in>set db. id' x \<noteq> i \<longrightarrow> Code x \<noteq> c"
      and uc: "\<forall>u\<in>set us. snd u \<noteq> Some i \<longrightarrow> fst u \<noteq> c" by blast+
    have "distinct (map Code (map h1 db))"
      using foldl_db_run_distinct[OF True dc, of pre] h1 by simp
    then have inj1: "inj_on (\<lambda>y. Code (h1 y)) (set db)" by (simp add: distinct_map comp_def)
    have fi: "?f y = c" if "id' y = i" for y using that by (simp add: set_code_def id1)
    have fn: "?f y = Code (h1 y) \<and> Code (h1 y) \<noteq> c" if y: "y \<in> set db" "id' y \<noteq> i" for y
    proof -
      have a: "?f y = Code (h1 y)" using y(2) by (simp add: set_code_def id1)
      from p1[rule_format, of y] have "Code (h1 y) \<noteq> c"
      proof
        assume "h1 y = y"
        then show ?thesis using oc y by simp
      next
        assume "\<exists>c'. (c', Some (id' y)) \<in> set pre \<and> h1 y = y\<lparr>Code := c'\<rparr>"
        then obtain c' where c': "(c', Some (id' y)) \<in> set pre" "h1 y = y\<lparr>Code := c'\<rparr>" by blast
        then have "(c', Some (id' y)) \<in> set us" unfolding us by simp
        with uc y(2) have "c' \<noteq> c" by fastforce
        with c'(2) show ?thesis by simp
      qed
      with a show ?thesis by simp
    qed
    have "inj_on ?f (set db)"
    proof (rule inj_onI)
      fix x y assume x: "x \<in> set db" and y: "y \<in> set db" and e: "?f x = ?f y"
      show "x = y"
      proof (cases "id' x = i")
        case xi: True
        show ?thesis
        proof (cases "id' y = i")
          case True
          with xi x y inj_id show ?thesis by (auto dest: inj_onD)
        next
          case False
          from fi[OF xi] have "?f x = c" .
          moreover from fn[OF y False] have "?f y \<noteq> c" by simp
          ultimately show ?thesis using e by simp
        qed
      next
        case xn: False
        show ?thesis
        proof (cases "id' y = i")
          case True
          from fi[OF True] have "?f y = c" .
          moreover from fn[OF x xn] have "?f x \<noteq> c" by simp
          ultimately show ?thesis using e by simp
        next
          case False
          with fn[OF x xn] fn[OF y False] e have "Code (h1 x) = Code (h1 y)" by simp
          with inj1 x y show ?thesis by (auto dest: inj_onD)
        qed
      qed
    qed
    then have "distinct (map ?f db)" using ddb by (simp add: distinct_map)
    then have "distinct (map Code (map (set_code c i) (map h1 db)))" by (simp add: comp_def)
    then show ?thesis by (simp add: db_run_def)
  qed
  from foldl_db_run_map[of sch "map (set_code c i) (map h1 db)" post] obtain h2 where
    h2: "foldl (db_run sch) (map (set_code c i) (map h1 db)) post =
           map h2 (map (set_code c i) (map h1 db))"
    and p2: "\<forall>r. h2 r = r \<or> (\<exists>c. (c, Some (id' r)) \<in> set post \<and> h2 r = r\<lparr>Code := c\<rparr>)" by blast
  have id2: "id' (h2 y) = id' y" for y by (rule map_keeps_id[OF p2])
  let ?H = "\<lambda>y. h2 (set_code c i (h1 y))"
  have "foldl (db_run sch) db us =
      foldl (db_run sch) (db_run sch (foldl (db_run sch) db pre) (c, Some i)) post"
    unfolding us by simp
  also have "\<dots> = foldl (db_run sch) (map (set_code c i) (map h1 db)) post"
    by (simp only: h1 run)
  also have "\<dots> = map h2 (map (set_code c i) (map h1 db))" by (rule h2)
  also have "\<dots> = map ?H db" by (simp add: comp_def)
  finally have fin: "foldl (db_run sch) db us = map ?H db" .
  have "h1 r = r" using map_untouched[OF p1, of r] npre ri by simp
  then have "set_code c i (h1 r) = r\<lparr>Code := c\<rparr>" using ri by (simp add: set_code_def)
  moreover have "h2 (r\<lparr>Code := c\<rparr>) = r\<lparr>Code := c\<rparr>"
    using map_untouched[OF p2, of "r\<lparr>Code := c\<rparr>"] npost ri by simp
  ultimately have Hr: "?H r = r\<lparr>Code := c\<rparr>" by simp
  have m: "r\<lparr>Code := c\<rparr> \<in> set (foldl (db_run sch) db us)"
    unfolding fin using rin Hr by (metis (no_types, lifting) image_eqI set_map)
  have o: "\<forall>x\<in>set (foldl (db_run sch) db us). id' x = i \<longrightarrow> x = r\<lparr>Code := c\<rparr>"
  proof (intro ballI impI)
    fix x assume "x \<in> set (foldl (db_run sch) db us)" and xi: "id' x = i"
    then obtain y where y: "y \<in> set db" "x = ?H y" unfolding fin by auto
    have "id' (?H y) = id' y" by (simp add: id2 set_code_id id1)
    with y(2) xi ri have "id' y = id' r" by simp
    with inj_id y(1) rin have "y = r" by (auto dest: inj_onD)
    with y(2) Hr show "x = r\<lparr>Code := c\<rparr>" by simp
  qed
  from m o show ?thesis by blast
qed




subsection \<open>The table after the run\<close>

lemma find_first:
  "find P xs = Some x \<Longrightarrow> \<exists>pre post. xs = pre @ x # post \<and> P x \<and> (\<forall>y\<in>set pre. \<not> P y)"
proof (induction xs)
  case Nil
  then show ?case by simp
next
  case (Cons a xs)
  show ?case
  proof (cases "P a")
    case True
    with Cons.prems have "x = a" by simp
    with True have "a # xs = [] @ x # xs \<and> P x \<and> (\<forall>y\<in>set []. \<not> P y)" by simp
    then show ?thesis by blast
  next
    case False
    with Cons.prems have "find P xs = Some x" by simp
    from Cons.IH[OF this] obtain pre post where
      "xs = pre @ x # post" "P x" "\<forall>y\<in>set pre. \<not> P y" by blast
    with False have "a # xs = (a # pre) @ x # post \<and> P x \<and> (\<forall>y\<in>set (a # pre). \<not> P y)"
      by simp
    then show ?thesis by blast
  qed
qed

lemma find_exists: "p \<in> set xs \<Longrightarrow> P p \<Longrightarrow> \<exists>x. find P xs = Some x"
  by (cases "find P xs") (auto simp: find_None_iff)




subsection \<open>The script on a table with other names\<close>

lemma js_find_Some: "js_find P xs = Inr (Some x) \<Longrightarrow> P x = Inr True"
  by (induction xs) (auto split: sum.splits if_splits)

lemma is_parent_of_True:
  "is_parent_of sch row r = Inr True \<Longrightarrow> title_name sch = ''title'' \<and> code_name sch = ''code''"
  by (auto simp: is_parent_of_def row_title_def row_code_def split: option.splits if_splits)

lemma find_parent_names:
  "find_parent sch rows row = Inr (Some parent) \<Longrightarrow>
   title_name sch = ''title'' \<and> code_name sch = ''code''"
  unfolding find_parent_def
  using is_parent_of_True[of sch row parent] js_find_Some[of "is_parent_of sch row" rows parent]
  by blast




subsection \<open>Codes of at most two segments\<close>







section \<open>Properties of the repair\<close>

lemmas example_defs = scenario_candidate_def scenario_parent_def parent_long_def parent_short_def
  flat_sibling_def other_candidate_def other_parent_def lower_schema_def unique_schema_def
  capital_schema_def

lemmas fix_defs = fixCodes_def fix_row_def find_parent_def is_parent_of_def row_id_def
  row_code_def row_title_def js_string_def correctedCode_def db_run_def set_code_def
  is_flat_def is_upper_def is_digit_def chr_dot_def

text \<open>
  The parent search on a table that declares \<open>code\<close> and \<open>title\<close> under these names is the
  search for the first row meeting the three parent conditions.
\<close>

lemma find_parent_two_names:
  assumes "title_name sch = ''title''" and "code_name sch = ''code''"
  shows "find_parent sch rows row = Inr (find (parent_cond row) rows)"
proof -
  have "is_parent_of sch row = (\<lambda>r. Inr (parent_cond row r))"
    by (rule ext)
      (simp add: is_parent_of_def parent_cond_def row_title_def row_code_def js_string_def assms)
  then show ?thesis by (simp add: find_parent_def js_find_total)
qed

text \<open>
  Claim C1, as amended. Take a table that declares its columns as \<open>id\<close>, \<open>code\<close> and \<open>title\<close>
  and has distinct ids, and in it a row whose code is one or more upper-case letters
  followed by digits only, for which some row \<open>p\<close> meets the parent conditions: its title
  contains the candidate's title, its code starts with the candidate's code and differs
  from it. Then the parent search finds the first row of the scan that meets these
  conditions (\<open>p\<close> itself when it is the only one); the script issues, without an error,
  the update of the candidate's code to the first two dot-segments of the code of that
  row; and the candidate's row carries that code after the run when the table has no
  uniqueness constraint on the code, or has one and the new code is neither the code of
  another row nor the code written for another row.
\<close>

theorem repair_sets_parent_prefix:
  assumes names: "id_name sch = Some ''id''" "code_name sch = ''code''" "title_name sch = ''title''"
    and ids: "distinct (map id' rows)" and rin: "row \<in> set rows"
    and flat: "Code row = us @ ds" "us \<noteq> []" "\<forall>c\<in>set us. is_upper c" "\<forall>c\<in>set ds. is_digit c"
    and p: "p \<in> set rows" "\<exists>u w. Title p = u @ Title row @ w" "\<exists>w. Code p = Code row @ w"
      "Code p \<noteq> Code row"
  shows "\<exists>parent pre post.
           rows = pre @ parent # post \<and> parent_cond row parent \<and>
           (\<forall>x\<in>set pre. \<not> parent_cond row x) \<and>
           ((\<forall>x\<in>set rows. parent_cond row x \<longrightarrow> x = p) \<longrightarrow> parent = p) \<and>
           find_parent sch rows row = Inr (Some parent) \<and>
           fix_row sch rows row = Inr (Some (first_two_segments (Code parent), Some (id' row))) \<and>
           (first_two_segments (Code parent), Some (id' row)) \<in> set (fst (forEach sch rows rows)) \<and>
           snd (fixCodes sch rows) = None \<and>
           ((code_unique sch \<longrightarrow>
               distinct (map Code rows) \<and>
               (\<forall>x\<in>set rows. x \<noteq> row \<longrightarrow>
                  Code x \<noteq> first_two_segments (Code parent) \<and>
                  (\<forall>u. fix_row sch rows x = Inr (Some u) \<longrightarrow>
                       fst u \<noteq> first_two_segments (Code parent)))) \<longrightarrow>
            row\<lparr>Code := first_two_segments (Code parent)\<rparr> \<in> set (fst (fixCodes sch rows)) \<and>
            (\<forall>r\<in>set (fst (fixCodes sch rows)). id' r = id' row \<longrightarrow>
               r = row\<lparr>Code := first_two_segments (Code parent)\<rparr>))"
proof -
  have ln: "lower_names sch" using names by (simp add: lower_names_def)
  have fl: "is_flat (Code row)" using flat unfolding is_flat_iff by blast
  have pc: "parent_cond row p" using p(2-4) unfolding parent_cond_iff by blast
  from find_exists[OF p(1), of "parent_cond row", OF pc] obtain parent where
    fnd: "find (parent_cond row) rows = Some parent" by blast
  from find_first[OF fnd] obtain pre post where
    sp: "rows = pre @ parent # post" and par: "parent_cond row parent"
    and fst: "\<forall>x\<in>set pre. \<not> parent_cond row x" by blast
  have pin: "parent \<in> set rows" using sp by simp
  have uniq: "(\<forall>x\<in>set rows. parent_cond row x \<longrightarrow> x = p) \<longrightarrow> parent = p"
    using pin par by blast
  let ?c = "first_two_segments (Code parent)"
  let ?usl = "List.map_filter (plain_fix_row rows) rows"
  have fp: "find_parent sch rows row = Inr (Some parent)"
    by (simp add: find_parent_lower[OF ln] fnd)
  have pl: "plain_fix_row rows row = Some (?c, Some (id' row))"
    using fl fnd by (simp add: plain_fix_row_def correctedCode_first_two)
  have fr: "fix_row sch rows row = Inr (Some (?c, Some (id' row)))"
    by (simp add: fix_row_lower[OF ln] pl)
  have mem: "(?c, Some (id' row)) \<in> set ?usl"
    using pl rin by (auto simp: map_filter_mem)
  have mem': "(?c, Some (id' row)) \<in> set (fst (forEach sch rows rows))"
    using mem by (simp add: forEach_lower[OF ln])
  have noerr: "snd (fixCodes sch rows) = None" by (simp add: fixCodes_lower[OF ln])
  have fin: "fst (fixCodes sch rows) = foldl (db_run sch) rows ?usl"
    by (simp add: fixCodes_lower[OF ln])
  have inj_id: "inj_on id' (set rows)" using ids by (simp add: distinct_map)
  have final: "row\<lparr>Code := ?c\<rparr> \<in> set (fst (fixCodes sch rows)) \<and>
            (\<forall>r\<in>set (fst (fixCodes sch rows)). id' r = id' row \<longrightarrow> r = row\<lparr>Code := ?c\<rparr>)"
    if acc: "code_unique sch \<longrightarrow>
               distinct (map Code rows) \<and>
               (\<forall>x\<in>set rows. x \<noteq> row \<longrightarrow>
                  Code x \<noteq> ?c \<and> (\<forall>u. fix_row sch rows x = Inr (Some u) \<longrightarrow> fst u \<noteq> ?c))"
  proof -
    have a: "distinct (map Code rows) \<and>
               (\<forall>x\<in>set rows. id' x \<noteq> id' row \<longrightarrow> Code x \<noteq> ?c) \<and>
               (\<forall>u\<in>set ?usl. snd u \<noteq> Some (id' row) \<longrightarrow> fst u \<noteq> ?c)" if cu: "code_unique sch"
    proof (intro conjI ballI impI)
      show "distinct (map Code rows)" using acc cu by blast
    next
      fix x assume "x \<in> set rows" "id' x \<noteq> id' row"
      then show "Code x \<noteq> ?c" using acc cu by auto
    next
      fix u assume u: "u \<in> set ?usl" "snd u \<noteq> Some (id' row)"
      then obtain x where x: "x \<in> set rows" "plain_fix_row rows x = Some u"
        by (auto simp: map_filter_mem)
      then have "snd u = Some (id' x)" using plain_fix_row_id by blast
      with u(2) have "x \<noteq> row" by auto
      moreover have "fix_row sch rows x = Inr (Some u)" by (simp add: fix_row_lower[OF ln] x(2))
      ultimately show "fst u \<noteq> ?c" using acc cu x(1) by blast
    qed
    from update_accepted[OF ids plain_updates_distinct[OF ids] mem rin refl, of sch] a
    show ?thesis unfolding fin by blast
  qed
  show ?thesis
    by (rule exI[of _ parent], rule exI[of _ pre], rule exI[of _ post])
      (use sp par fst uniq fp fr mem' noerr final in blast)
qed


text \<open>
  The scenario of the specification: the entry \<open>HFA\<close> (\<open>Drainage\<close>) with the entry
  \<open>HFA.BA.01\<close> (\<open>Drainage of abscess\<close>) gets the code \<open>HFA.BA\<close>, with and without the
  uniqueness constraint.
\<close>

theorem repair_sets_parent_prefix_witness:
  "Code scenario_candidate = ''HFA'' \<and> Code scenario_parent = ''HFA.BA.01'' \<and>
   scenario_candidate\<lparr>Code := ''HFA.BA''\<rparr>
     \<in> set (fst (fixCodes lower_schema [scenario_candidate, scenario_parent])) \<and>
   scenario_candidate\<lparr>Code := ''HFA.BA''\<rparr>
     \<in> set (fst (fixCodes unique_schema [scenario_candidate, scenario_parent]))"
proof -
  let ?rows = "[scenario_candidate, scenario_parent]"
  have n1: "id_name lower_schema = Some ''id''" "code_name lower_schema = ''code''"
    "title_name lower_schema = ''title''" by (simp_all add: lower_schema_def)
  have n2: "id_name unique_schema = Some ''id''" "code_name unique_schema = ''code''"
    "title_name unique_schema = ''title''" by (simp_all add: unique_schema_def)
  have a: "distinct (map id' ?rows)" by (simp add: example_defs)
  have b: "scenario_candidate \<in> set ?rows" by simp
  have c: "Code scenario_candidate = ''HFA'' @ []" "''HFA'' \<noteq> []"
    "\<forall>c\<in>set ''HFA''. is_upper c" "\<forall>c\<in>set []. is_digit c"
    by (simp_all add: is_upper_def example_defs)
  have d: "scenario_parent \<in> set ?rows" by simp
  have e1: "\<exists>u w. Title scenario_parent = u @ Title scenario_candidate @ w"
    unfolding includes_str_iff[symmetric] by (simp add: example_defs)
  have e2: "\<exists>w. Code scenario_parent = Code scenario_candidate @ w"
    unfolding startsWith_iff[symmetric] by (simp add: example_defs)
  have e3: "Code scenario_parent \<noteq> Code scenario_candidate" by (simp add: example_defs)
  have only: "\<forall>x\<in>set ?rows. parent_cond scenario_candidate x \<longrightarrow> x = scenario_parent"
    by (simp add: parent_cond_def)
  have g: "first_two_segments (Code scenario_parent) = ''HFA.BA''"
    by (simp add: first_two_segments_def chr_dot_def example_defs)
  have nu: "\<not> code_unique lower_schema" by (simp add: lower_schema_def)
  have acc: "distinct (map Code ?rows) \<and>
      (\<forall>x\<in>set ?rows. x \<noteq> scenario_candidate \<longrightarrow>
         Code x \<noteq> ''HFA.BA'' \<and>
         (\<forall>u. fix_row unique_schema ?rows x = Inr (Some u) \<longrightarrow> fst u \<noteq> ''HFA.BA''))"
    by (simp add: fix_defs js_find.simps) (simp add: example_defs)
  from repair_sets_parent_prefix[OF n1 a b c d e1 e2 e3] only nu
  have "scenario_candidate\<lparr>Code := first_two_segments (Code scenario_parent)\<rparr>
          \<in> set (fst (fixCodes lower_schema ?rows))" by blast
  moreover from repair_sets_parent_prefix[OF n2 a b c d e1 e2 e3] only acc
  have "scenario_candidate\<lparr>Code := first_two_segments (Code scenario_parent)\<rparr>
          \<in> set (fst (fixCodes unique_schema ?rows))" unfolding g[symmetric] by blast
  ultimately show ?thesis unfolding g by (simp add: example_defs)
qed

text \<open>
  Three tables on which a row meets the parent conditions for \<open>HFA\<close> and the code of \<open>HFA\<close>
  is not set to the first two dot-segments of that row's code. With two qualifying rows
  the code written is that of the first, \<open>HFA.CC\<close>, not \<open>HFA.B\<close>. On a table that declares the
  columns as \<open>Code\<close> and \<open>Title\<close> nothing is written. With a uniqueness constraint and the
  parent \<open>HFA1\<close> the update to \<open>HFA1\<close> is refused.
\<close>

theorem repair_parent_prefix_counterexample:
  "parent_cond scenario_candidate parent_short \<and>
   first_two_segments (Code parent_short) = ''HFA.B'' \<and>
   map Code (fst (fixCodes lower_schema [scenario_candidate, parent_long, parent_short]))
     = [''HFA.CC'', ''HFA.CC.02'', ''HFA.B''] \<and>
   parent_cond scenario_candidate scenario_parent \<and>
   fixCodes capital_schema [scenario_candidate, scenario_parent]
     = ([scenario_candidate, scenario_parent], None) \<and>
   parent_cond scenario_candidate flat_sibling \<and>
   first_two_segments (Code flat_sibling) = ''HFA1'' \<and>
   fixCodes unique_schema [scenario_candidate, flat_sibling]
     = ([scenario_candidate, flat_sibling], None)"
  by (simp add: fix_defs parent_cond_def first_two_segments_def example_defs)


text \<open>
  Claim C2, as amended. The parent search finds a row only on a table that declares
  \<open>code\<close> and \<open>title\<close> under these names, and the row it finds is the first row, in the order
  in which the rows were read, that meets the parent conditions: no row before it meets
  them, and no comparison of code lengths or of codes takes part. The code written for a
  candidate is the first two dot-segments of the code of that first match, so it depends
  on the order of the rows. On such a table the search finds a parent whenever a row meets
  the conditions.
\<close>

theorem parent_is_first_match:
  "(find_parent sch rows row = Inr (Some parent) \<longrightarrow>
      title_name sch = ''title'' \<and> code_name sch = ''code'' \<and>
      (\<exists>pre post. rows = pre @ parent # post \<and> parent_cond row parent \<and>
         (\<forall>x\<in>set pre. \<not> parent_cond row x)) \<and>
      (is_flat (Code row) \<longrightarrow>
         fix_row sch rows row = Inr (Some (first_two_segments (Code parent), row_id sch row)))) \<and>
   (title_name sch = ''title'' \<and> code_name sch = ''code'' \<and> p \<in> set rows \<and> parent_cond row p \<longrightarrow>
      (\<exists>first pre post. find_parent sch rows row = Inr (Some first) \<and>
         rows = pre @ first # post \<and> parent_cond row first \<and>
         (\<forall>x\<in>set pre. \<not> parent_cond row x)))"
proof (intro conjI impI)
  assume fp: "find_parent sch rows row = Inr (Some parent)"
  from find_parent_names[OF fp] show t: "title_name sch = ''title''" and c: "code_name sch = ''code''"
    by blast+
  from fp have fnd: "find (parent_cond row) rows = Some parent"
    by (simp add: find_parent_two_names[OF t c])
  from find_first[OF fnd]
  show "\<exists>pre post. rows = pre @ parent # post \<and> parent_cond row parent \<and>
         (\<forall>x\<in>set pre. \<not> parent_cond row x)" .
  show "fix_row sch rows row = Inr (Some (first_two_segments (Code parent), row_id sch row))"
    if "is_flat (Code row)"
    using that fp c by (simp add: fix_row_def row_code_def js_string_def correctedCode_first_two)
next
  assume a: "title_name sch = ''title'' \<and> code_name sch = ''code'' \<and> p \<in> set rows \<and>
      parent_cond row p"
  then obtain first where fnd: "find (parent_cond row) rows = Some first"
    using find_exists[of p rows "parent_cond row"] by blast
  from a have fp: "find_parent sch rows row = Inr (Some first)"
    by (simp add: find_parent_two_names fnd)
  from find_first[OF fnd] fp
  show "\<exists>first pre post. find_parent sch rows row = Inr (Some first) \<and>
         rows = pre @ first # post \<and> parent_cond row first \<and>
         (\<forall>x\<in>set pre. \<not> parent_cond row x)" by blast
qed

text \<open>
  With the longer parent read before the shorter one, the longer one is selected.
\<close>

theorem parent_is_first_match_witness:
  "find_parent lower_schema [scenario_candidate, parent_long, parent_short] scenario_candidate
     = Inr (Some parent_long) \<and>
   fix_row lower_schema [scenario_candidate, parent_long, parent_short] scenario_candidate
     = Inr (Some (''HFA.CC'', Some 1))"
proof -
  let ?rows = "[scenario_candidate, parent_long, parent_short]"
  have n: "title_name lower_schema = ''title'' \<and> code_name lower_schema = ''code''"
    by (simp add: lower_schema_def)
  have pin: "parent_short \<in> set ?rows" by simp
  have pc: "parent_cond scenario_candidate parent_short"
    by (simp add: parent_cond_def example_defs)
  have n0: "\<not> parent_cond scenario_candidate scenario_candidate" by (simp add: parent_cond_def)
  have pl: "parent_cond scenario_candidate parent_long"
    by (simp add: parent_cond_def example_defs)
  have c: "is_flat (Code scenario_candidate)"
    by (simp add: is_flat_def is_upper_def is_digit_def example_defs)
  have g: "first_two_segments (Code parent_long) = ''HFA.CC''"
    by (simp add: first_two_segments_def chr_dot_def example_defs)
  have i: "row_id lower_schema scenario_candidate = Some 1"
    by (simp add: row_id_def example_defs)
  note t = parent_is_first_match[of lower_schema ?rows scenario_candidate _ parent_short]
  from t n pin pc obtain first pre post where
    fp: "find_parent lower_schema ?rows scenario_candidate = Inr (Some first)"
    and sp: "?rows = pre @ first # post" and fc: "parent_cond scenario_candidate first"
    and np: "\<forall>x\<in>set pre. \<not> parent_cond scenario_candidate x" by blast
  have "first = parent_long"
  proof (cases pre)
    case Nil
    with sp have "first = scenario_candidate" by simp
    with fc n0 show ?thesis by simp
  next
    case (Cons a pre')
    show ?thesis
    proof (cases pre')
      case Nil
      with Cons sp show ?thesis by simp
    next
      case (Cons b pre'')
      with \<open>pre = a # pre'\<close> sp have "parent_long \<in> set pre" by auto
      with np pl show ?thesis by blast
    qed
  qed
  with fp have f: "find_parent lower_schema ?rows scenario_candidate = Inr (Some parent_long)"
    by simp
  from parent_is_first_match[of lower_schema ?rows scenario_candidate parent_long] f c
  have "fix_row lower_schema ?rows scenario_candidate =
      Inr (Some (first_two_segments (Code parent_long), row_id lower_schema scenario_candidate))"
    by blast
  with f show ?thesis unfolding g i by simp
qed

text \<open>
  Two rows meet the parent conditions for \<open>HFA\<close>; the repair selects \<open>HFA.CC.02\<close>, read first,
  not \<open>HFA.B\<close> with the shorter code, and writes \<open>HFA.CC\<close>. With the two rows read in the
  other order it writes \<open>HFA.B\<close>.
\<close>

theorem parent_choice_counterexample:
  "find_parent lower_schema [scenario_candidate, parent_long, parent_short] scenario_candidate
     = Inr (Some parent_long) \<and>
   parent_cond scenario_candidate parent_short \<and>
   length (Code parent_short) < length (Code parent_long) \<and>
   forEach lower_schema [scenario_candidate, parent_long, parent_short]
     [scenario_candidate, parent_long, parent_short] = ([(''HFA.CC'', Some 1)], None) \<and>
   forEach lower_schema [scenario_candidate, parent_short, parent_long]
     [scenario_candidate, parent_short, parent_long] = ([(''HFA.B'', Some 1)], None)"
  by (simp add: fix_defs parent_cond_def example_defs)






end
